theory Spec2Isabelle
  imports Main "HOL-Library.Word" "HOL-Library.Monad_Syntax" "HOL-Library.Multiset"
begin

unbundle bit_operations_syntax

section \<open>Data model (ma_additional.h, ma_additional.c)\<close>

text \<open>
  \<open>size_t\<close> and \<open>uint64_t\<close> are 64-bit words, so \<open>+\<close> wraps modulo \<open>2 ^ 64\<close> as in C.
  An automaton pointer \<open>moore_t*\<close> is an optional address (\<open>None\<close> is \<open>NULL\<close>); the
  automata live in an explicit store, because the connection graph shares them.
  A bit buffer \<open>uint64_t*\<close> is the list of its 64-bit blocks.  Link nodes are owned by
  exactly one slot or list, so they are kept by value: an incoming slot is an optional
  node (\<open>None\<close> is \<open>NULL\<close>) and an outgoing linked list is a HOL list in \<open>next\<close> order.
\<close>

type_synonym size_t = "64 word"
type_synonym uint64_t = "64 word"
type_synonym addr = nat
type_synonym ptr = "addr option"
type_synonym bits = "uint64_t list"

datatype errno_code = ENONE | EINVAL | ENOMEM

datatype outgoing_t = Outgoing (aut_getting_signals: ptr) (bit_getting_signals: size_t)

datatype incoming_t = Incoming (source_aut: ptr) (source_bit: size_t)

text \<open>
  The callbacks of \<open>ma.h\<close> are pure functions of the buffers they are given:
  \<open>transition_function(next_state, input, state, n, s)\<close> returns the contents of
  \<open>next_state\<close> after the call, \<open>output_function(output, state, m, s)\<close> the contents of
  \<open>output\<close> after the call, and \<open>None\<close> when the callback leaves the bounds of a
  buffer.  The input buffer of an automaton without inputs is \<open>NULL\<close>.
\<close>

type_synonym transition_function_t = "bits \<Rightarrow> bits option \<Rightarrow> bits \<Rightarrow> size_t \<Rightarrow> size_t \<Rightarrow> bits option"
type_synonym output_function_t = "bits \<Rightarrow> bits \<Rightarrow> size_t \<Rightarrow> size_t \<Rightarrow> bits option"

record moore_t =
  input_signals_num :: size_t
  output_signals_num :: size_t
  state_signals_num :: size_t
  a_state :: bits
  a_input :: "bits option"
  a_output :: bits
  transition_function :: transition_function_t
  output_function :: output_function_t
  outgoing_connections :: "outgoing_t list list"
  incoming_connections :: "incoming_t option list"

text \<open>
  The whole system: the store of live automata, \<open>errno\<close>, the outcomes of the coming
  \<open>malloc\<close>/\<open>calloc\<close> calls (\<open>False\<close> is a failed allocation; once the list is used up
  every allocation succeeds) and the next unused address.  Every operation returns
  \<open>None\<close> where the C program has undefined behaviour: a dangling or \<open>NULL\<close> pointer is
  dereferenced, or an array is indexed outside its bounds.
\<close>

record sys =
  heap :: "addr \<rightharpoonup> moore_t"
  errno :: errno_code
  allocs :: "bool list"
  next_addr :: addr

definition malloc :: "sys \<Rightarrow> bool \<times> sys" where
  "malloc s = (case allocs s of [] \<Rightarrow> (True, s) | b # bs \<Rightarrow> (b, s\<lparr>allocs := bs\<rparr>))"

text \<open>\<open>calloc(nmemb, size)\<close> fails when \<open>nmemb * size\<close> does not fit \<open>size_t\<close>.\<close>

definition calloc :: "sys \<Rightarrow> size_t \<Rightarrow> nat \<Rightarrow> bool \<times> sys" where
  "calloc s nmemb sz = (if 2 ^ 64 \<le> unat nmemb * sz then (False, s) else malloc s)"

definition nth_opt :: "'a list \<Rightarrow> nat \<Rightarrow> 'a option" where
  "nth_opt xs i = (if i < length xs then Some (xs ! i) else None)"

definition store :: "sys \<Rightarrow> addr \<Rightarrow> moore_t \<Rightarrow> sys" where
  "store s p A = s\<lparr>heap := (heap s)(p \<mapsto> A)\<rparr>"

definition einval :: "sys \<Rightarrow> (int \<times> sys) option" where
  "einval s = Some (- 1, s\<lparr>errno := EINVAL\<rparr>)"

text \<open>The values \<open>i\<close> takes in \<open>for (size_t i = 0; i < num; i++)\<close>, in order.\<close>

definition size_t_range :: "size_t \<Rightarrow> size_t list" where
  "size_t_range num = map word_of_nat [0..<unat num]"

primrec for_each :: "'a list \<Rightarrow> ('a \<Rightarrow> 's \<Rightarrow> 's option) \<Rightarrow> 's \<Rightarrow> 's option" where
  "for_each [] f s = Some s"
| "for_each (x # xs) f s = (case f x s of None \<Rightarrow> None | Some s' \<Rightarrow> for_each xs f s')"

section \<open>Bit-vector utility\<close>

text \<open>\<open>(1ULL << num_bits) - 1\<close>; the callers pass \<open>num_bits\<close> between 1 and 63.\<close>

definition create_bit_mask :: "size_t \<Rightarrow> uint64_t" where
  "create_bit_mask num_bits = push_bit (unat num_bits) 1 - 1"

definition get_bit :: "sys \<Rightarrow> bits option \<Rightarrow> size_t \<Rightarrow> (int \<times> sys) option" where
  "get_bit s source bit_index =
     (case source of
        None \<Rightarrow> Some (- 1, s\<lparr>errno := EINVAL\<rparr>)
      | Some src \<Rightarrow>
          (let block_index = bit_index div 64;
               bit_offset = bit_index mod 64
           in do {
             block \<leftarrow> nth_opt src (unat block_index);
             Some (uint (drop_bit (unat bit_offset) block AND 1), s)
           }))"

definition set_bit_c :: "sys \<Rightarrow> int \<Rightarrow> bits option \<Rightarrow> size_t \<Rightarrow> size_t \<Rightarrow> (bits option \<times> sys) option" where
  "set_bit_c s bit_value array block_index bit_index =
     (case array of
        None \<Rightarrow> Some (None, s\<lparr>errno := EINVAL\<rparr>)
      | Some arr \<Rightarrow> do {
          block \<leftarrow> nth_opt arr (unat block_index);
          Some (Some (arr[unat block_index :=
                  (if bit_value = 1 then block OR push_bit (unat bit_index) 1
                   else block AND NOT (push_bit (unat bit_index) 1))]), s)
        })"

text \<open>\<open>memcpy(dst, src, blocks * sizeof(uint64_t))\<close> on block buffers.\<close>

definition memcpy :: "bits \<Rightarrow> bits \<Rightarrow> size_t \<Rightarrow> bits option" where
  "memcpy dst src blocks =
     (if unat blocks \<le> length dst \<and> unat blocks \<le> length src
      then Some (take (unat blocks) src @ drop (unat blocks) dst) else None)"

text \<open>\<open>array[block] &= mask\<close>.\<close>

definition and_block :: "bits \<Rightarrow> size_t \<Rightarrow> uint64_t \<Rightarrow> bits option" where
  "and_block array block m = do {
     w \<leftarrow> nth_opt array (unat block);
     Some (array[unat block := w AND m])
   }"

section \<open>Connection lists\<close>

fun remove_from_the_outgoing_list_loop :: "outgoing_t list \<Rightarrow> ptr \<Rightarrow> size_t \<Rightarrow> outgoing_t list" where
  "remove_from_the_outgoing_list_loop [] a_in b = []"
| "remove_from_the_outgoing_list_loop (current # rest) a_in b =
     (if aut_getting_signals current = a_in \<and> bit_getting_signals current = b then rest
      else current # remove_from_the_outgoing_list_loop rest a_in b)"

definition remove_from_the_outgoing_list :: "sys \<Rightarrow> outgoing_t list \<Rightarrow> ptr \<Rightarrow> size_t \<Rightarrow> outgoing_t list \<times> sys" where
  "remove_from_the_outgoing_list s head a_in b =
     (if head = [] then (head, s\<lparr>errno := EINVAL\<rparr>)
      else (remove_from_the_outgoing_list_loop head a_in b, s))"

text \<open>
  In \<open>create_incoming_connection\<close>, a slot that is still occupied is freed before the
  new node is allocated.  When that allocation fails the slot keeps the freed pointer,
  whose every later use is a use after free; the model stops there with \<open>None\<close>.
\<close>

definition create_incoming_connection :: "sys \<Rightarrow> ptr \<Rightarrow> size_t \<Rightarrow> ptr \<Rightarrow> size_t \<Rightarrow> sys option" where
  "create_incoming_connection s gets_signals b gives_signals src_bit =
     (case (gets_signals, gives_signals) of
        (Some p_gets, Some p_gives) \<Rightarrow> do {
          G \<leftarrow> heap s p_gets;
          if b \<ge> input_signals_num G then Some (s\<lparr>errno := EINVAL\<rparr>)
          else do {
            V \<leftarrow> heap s p_gives;
            if src_bit \<ge> output_signals_num V then Some (s\<lparr>errno := EINVAL\<rparr>)
            else do {
              slot \<leftarrow> nth_opt (incoming_connections G) (unat b);
              (freed, s1) \<leftarrow>
                (if slot \<noteq> None then do {
                   current \<leftarrow> nth_opt (outgoing_connections V) (unat src_bit);
                   let (current', s') = remove_from_the_outgoing_list s current gets_signals b;
                   Some (True, store s' p_gives
                     (V\<lparr>outgoing_connections := (outgoing_connections V)[unat src_bit := current']\<rparr>))
                 } else Some (False, s));
              let (ok, s2) = malloc s1;
              if \<not> ok then (if freed then None else Some (s2\<lparr>errno := ENOMEM\<rparr>))
              else do {
                G' \<leftarrow> heap s2 p_gets;
                Some (store s2 p_gets
                  (G'\<lparr>incoming_connections :=
                      (incoming_connections G')[unat b := Some (Incoming gives_signals src_bit)]\<rparr>))
              }
            }
          }
        }
      | _ \<Rightarrow> Some (s\<lparr>errno := EINVAL\<rparr>))"

fun existing_connection_loop :: "outgoing_t list \<Rightarrow> bool \<Rightarrow> ptr \<Rightarrow> size_t \<Rightarrow> bool" where
  "existing_connection_loop [] existing gets_signals b = existing"
| "existing_connection_loop (current # rest) existing gets_signals b =
     (if \<not> existing then
        existing_connection_loop rest
          (if aut_getting_signals current = gets_signals \<and> bit_getting_signals current = b
           then True else existing) gets_signals b
      else existing)"

definition create_outgoing_connection :: "sys \<Rightarrow> ptr \<Rightarrow> size_t \<Rightarrow> ptr \<Rightarrow> size_t \<Rightarrow> sys option" where
  "create_outgoing_connection s gives_signals src_bit gets_signals b =
     (case (gives_signals, gets_signals) of
        (Some p_gives, Some p_gets) \<Rightarrow> do {
          V \<leftarrow> heap s p_gives;
          if src_bit \<ge> output_signals_num V then Some (s\<lparr>errno := EINVAL\<rparr>)
          else do {
            G \<leftarrow> heap s p_gets;
            if b \<ge> input_signals_num G then Some (s\<lparr>errno := EINVAL\<rparr>)
            else do {
              current \<leftarrow> nth_opt (outgoing_connections V) (unat src_bit);
              if \<not> existing_connection_loop current False gets_signals b then
                (let (ok, s1) = malloc s in
                 if \<not> ok then Some (s1\<lparr>errno := ENOMEM\<rparr>)
                 else Some (store s1 p_gives
                   (V\<lparr>outgoing_connections :=
                       (outgoing_connections V)[unat src_bit := Outgoing gets_signals b # current]\<rparr>)))
              else Some s
            }
          }
        }
      | _ \<Rightarrow> Some (s\<lparr>errno := EINVAL\<rparr>))"

definition remove_the_connection :: "sys \<Rightarrow> ptr \<Rightarrow> size_t \<Rightarrow> sys option" where
  "remove_the_connection s a_in b =
     (case a_in of
        None \<Rightarrow> Some (s\<lparr>errno := EINVAL\<rparr>)
      | Some p_in \<Rightarrow> do {
          A \<leftarrow> heap s p_in;
          if b \<ge> input_signals_num A then Some (s\<lparr>errno := EINVAL\<rparr>)
          else do {
            slot \<leftarrow> nth_opt (incoming_connections A) (unat b);
            case slot of
              None \<Rightarrow> Some s
            | Some node \<Rightarrow>
                (case source_aut node of
                   None \<Rightarrow> Some s
                 | Some p_src \<Rightarrow> do {
                     S \<leftarrow> heap s p_src;
                     current_out \<leftarrow> nth_opt (outgoing_connections S) (unat (source_bit node));
                     let (current_out', s1) = remove_from_the_outgoing_list s current_out a_in b;
                     let s2 = store s1 p_src
                       (S\<lparr>outgoing_connections :=
                           (outgoing_connections S)[unat (source_bit node) := current_out']\<rparr>);
                     A' \<leftarrow> heap s2 p_in;
                     Some (store s2 p_in
                       (A'\<lparr>incoming_connections := (incoming_connections A')[unat b := None]\<rparr>))
                   })
          }
        })"

text \<open>The inner \<open>while\<close> of \<open>clear_the_connections\<close>: every receiver's slot is emptied.\<close>

definition clear_receiver :: "outgoing_t \<Rightarrow> sys \<Rightarrow> sys option" where
  "clear_receiver current s = do {
     p_get \<leftarrow> aut_getting_signals current;
     G \<leftarrow> heap s p_get;
     _ \<leftarrow> nth_opt (incoming_connections G) (unat (bit_getting_signals current));
     Some (store s p_get
       (G\<lparr>incoming_connections :=
           (incoming_connections G)[unat (bit_getting_signals current) := None]\<rparr>))
   }"

definition clear_the_connections :: "sys \<Rightarrow> ptr \<Rightarrow> sys option" where
  "clear_the_connections s a =
     (case a of
        None \<Rightarrow> Some (s\<lparr>errno := EINVAL\<rparr>)
      | Some p \<Rightarrow> do {
          A \<leftarrow> heap s p;
          let input_signals = input_signals_num A;
          let output_signals = output_signals_num A;
          s1 \<leftarrow> for_each (size_t_range input_signals) (\<lambda>i s. remove_the_connection s a i) s;
          for_each (size_t_range output_signals)
            (\<lambda>i s. do {
               A' \<leftarrow> heap s p;
               current \<leftarrow> nth_opt (outgoing_connections A') (unat i);
               s' \<leftarrow> for_each current clear_receiver s;
               A'' \<leftarrow> heap s' p;
               Some (store s' p
                 (A''\<lparr>outgoing_connections := (outgoing_connections A'')[unat i := []]\<rparr>))
             }) s1
        })"

definition free_automaton :: "sys \<Rightarrow> ptr \<Rightarrow> sys option" where
  "free_automaton s a =
     (case a of
        None \<Rightarrow> Some s
      | Some p \<Rightarrow> do {
          _ \<leftarrow> heap s p;
          Some (s\<lparr>heap := (heap s)(p := None)\<rparr>)
        })"

section \<open>Construction\<close>

text \<open>
  \<open>initialize_automaton\<close> fills the scalar fields of the freshly allocated structure;
  its buffers and connection arrays are not allocated yet (empty here) and are set by
  \<open>allocate_automaton\<close>.  A function pointer is optional: \<open>None\<close> is \<open>NULL\<close>.
\<close>

definition initialize_automaton ::
  "sys \<Rightarrow> size_t \<Rightarrow> size_t \<Rightarrow> size_t \<Rightarrow> transition_function_t option \<Rightarrow> output_function_t option
     \<Rightarrow> moore_t option \<times> sys" where
  "initialize_automaton s n m st t y =
     (case (t, y) of
        (Some tf, Some yf) \<Rightarrow>
          if m = 0 \<or> st = 0 then (None, s\<lparr>errno := EINVAL\<rparr>)
          else (Some \<lparr>input_signals_num = n, output_signals_num = m, state_signals_num = st,
                       a_state = [], a_input = None, a_output = [],
                       transition_function = tf, output_function = yf,
                       outgoing_connections = [], incoming_connections = []\<rparr>, s)
      | _ \<Rightarrow> (None, s\<lparr>errno := EINVAL\<rparr>))"

definition allocate_automaton :: "sys \<Rightarrow> moore_t \<Rightarrow> size_t \<Rightarrow> size_t \<Rightarrow> size_t \<Rightarrow> moore_t option \<times> sys" where
  "allocate_automaton s a n m st =
     (if m = 0 \<or> st = 0 then (None, s\<lparr>errno := EINVAL\<rparr>)
      else
        let output_blocks = (m + 63) div 64;
            input_blocks = (n + 63) div 64;
            state_blocks = (st + 63) div 64;
            (ok_in, s1) = (if n \<noteq> 0 then calloc s input_blocks 8 else (True, s))
        in if \<not> ok_in then (None, s1\<lparr>errno := ENOMEM\<rparr>)
        else let (ok_out, s2) = calloc s1 output_blocks 8
        in if \<not> ok_out then (None, s2\<lparr>errno := ENOMEM\<rparr>)
        else let (ok_st, s3) = calloc s2 state_blocks 8
        in if \<not> ok_st then (None, s3\<lparr>errno := ENOMEM\<rparr>)
        else let (ok_inc, s4) = (if n \<noteq> 0 then calloc s3 n 8 else (True, s3))
        in if \<not> ok_inc then (None, s4\<lparr>errno := ENOMEM\<rparr>)
        else let (ok_outg, s5) = calloc s4 m 8
        in if \<not> ok_outg then (None, s5\<lparr>errno := ENOMEM\<rparr>)
        else (Some (a\<lparr>a_input := (if n \<noteq> 0 then Some (replicate (unat input_blocks) 0) else None),
                        a_output := replicate (unat output_blocks) 0,
                        a_state := replicate (unat state_blocks) 0,
                        incoming_connections := replicate (unat n) None,
                        outgoing_connections := replicate (unat m) []\<rparr>), s5))"

text \<open>
  A callback works inside the buffer it is given: one that returns a buffer of another
  length is no C callback, and calling it counts as undefined behaviour.
\<close>

definition call_transition ::
  "transition_function_t \<Rightarrow> bits \<Rightarrow> bits option \<Rightarrow> bits \<Rightarrow> size_t \<Rightarrow> size_t \<Rightarrow> bits option" where
  "call_transition t next_state inp st n k = do {
     r \<leftarrow> t next_state inp st n k;
     if length r = length next_state then Some r else None
   }"

definition call_output :: "output_function_t \<Rightarrow> bits \<Rightarrow> bits \<Rightarrow> size_t \<Rightarrow> size_t \<Rightarrow> bits option" where
  "call_output y out st m k = do {
     r \<leftarrow> y out st m k;
     if length r = length out then Some r else None
   }"

text \<open>
  \<open>identity_function\<close> is the output callback of a simple automaton.  Its guard also
  stores \<open>EINVAL\<close> in \<open>errno\<close>, which a callback of this type cannot show; the guard
  never fires for an automaton made by \<open>ma_create_simple\<close>, where \<open>s = m\<close> and \<open>m \<noteq> 0\<close>.
\<close>

definition identity_function :: output_function_t where
  "identity_function out st m k =
     (if k \<noteq> m \<or> m = 0 then Some out
      else
        let blocks = (m + 63) div 64
        in do {
          out1 \<leftarrow> memcpy out st blocks;
          if m mod 64 \<noteq> 0 then and_block out1 (blocks - 1) (create_bit_mask (m mod 64))
          else Some out1
        })"

section \<open>Signal assignment\<close>

definition ma_set_input :: "sys \<Rightarrow> ptr \<Rightarrow> bits option \<Rightarrow> (int \<times> sys) option" where
  "ma_set_input s a inp =
     (case (a, inp) of
        (Some p, Some _) \<Rightarrow> do {
          A \<leftarrow> heap s p;
          if input_signals_num A = 0 then einval s
          else do {
            let input_signals = input_signals_num A;
            s' \<leftarrow> for_each (size_t_range input_signals)
              (\<lambda>i s. do {
                 A \<leftarrow> heap s p;
                 slot \<leftarrow> nth_opt (incoming_connections A) (unat i);
                 if slot = None then do {
                   (bit_value, s1) \<leftarrow> get_bit s inp i;
                   (arr, s2) \<leftarrow> set_bit_c s1 bit_value (a_input A) (i div 64) (i mod 64);
                   A' \<leftarrow> heap s2 p;
                   Some (store s2 p (A'\<lparr>a_input := arr\<rparr>))
                 } else Some s
               }) s;
            Some (0, s')
          }
        }
      | _ \<Rightarrow> einval s)"

definition ma_set_state :: "sys \<Rightarrow> ptr \<Rightarrow> bits option \<Rightarrow> (int \<times> sys) option" where
  "ma_set_state s a st =
     (case (a, st) of
        (Some p, Some new_state) \<Rightarrow> do {
          A \<leftarrow> heap s p;
          let state_signals = state_signals_num A;
          let blocks = (state_signals + 63) div 64;
          st' \<leftarrow> memcpy (a_state A) new_state blocks;
          out' \<leftarrow> call_output (output_function A) (a_output A) st'
                    (output_signals_num A) (state_signals_num A);
          Some (0, store s p (A\<lparr>a_state := st', a_output := out'\<rparr>))
        }
      | _ \<Rightarrow> einval s)"

definition ma_get_output :: "sys \<Rightarrow> ptr \<Rightarrow> (bits option \<times> sys) option" where
  "ma_get_output s a =
     (case a of
        None \<Rightarrow> Some (None, s\<lparr>errno := EINVAL\<rparr>)
      | Some p \<Rightarrow> do {
          A \<leftarrow> heap s p;
          Some (Some (a_output A), s)
        })"

section \<open>Construction and teardown (ma.c)\<close>

definition ma_create_full ::
  "sys \<Rightarrow> size_t \<Rightarrow> size_t \<Rightarrow> size_t \<Rightarrow> transition_function_t option \<Rightarrow> output_function_t option
     \<Rightarrow> bits option \<Rightarrow> (ptr \<times> sys) option" where
  "ma_create_full s n m st t y q =
     (let (ok, s1) = malloc s
      in if \<not> ok then Some (None, s1\<lparr>errno := ENOMEM\<rparr>)
      else case initialize_automaton s1 n m st t y of
        (None, s2) \<Rightarrow> Some (None, s2)
      | (Some a0, s2) \<Rightarrow>
          (case allocate_automaton s2 a0 n m st of
             (None, s3) \<Rightarrow> Some (None, s3)
           | (Some a1, s3) \<Rightarrow>
               let p = next_addr s3;
                   s4 = store (s3\<lparr>next_addr := Suc p\<rparr>) p a1
               in do {
                 (r, s5) \<leftarrow> ma_set_state s4 (Some p) q;
                 if r = - 1 then do {
                   s6 \<leftarrow> free_automaton s5 (Some p);
                   Some (None, s6)
                 } else Some (Some p, s5)
               }))"

definition ma_create_simple ::
  "sys \<Rightarrow> size_t \<Rightarrow> size_t \<Rightarrow> transition_function_t option \<Rightarrow> (ptr \<times> sys) option" where
  "ma_create_simple s n m t =
     (let (ok, s1) = malloc s
      in if \<not> ok then Some (None, s1\<lparr>errno := ENOMEM\<rparr>)
      else case initialize_automaton s1 n m m t (Some identity_function) of
        (None, s2) \<Rightarrow> Some (None, s2)
      | (Some a0, s2) \<Rightarrow>
          (case allocate_automaton s2 a0 n m m of
             (None, s3) \<Rightarrow> Some (None, s3)
           | (Some a1, s3) \<Rightarrow>
               let p = next_addr s3
               in Some (Some p, store (s3\<lparr>next_addr := Suc p\<rparr>) p a1)))"

definition ma_delete :: "sys \<Rightarrow> ptr \<Rightarrow> sys option" where
  "ma_delete s a =
     (case a of
        None \<Rightarrow> Some s
      | Some _ \<Rightarrow> do {
          s1 \<leftarrow> clear_the_connections s a;
          free_automaton s1 a
        })"

section \<open>Connectivity (ma.c)\<close>

definition ma_connect :: "sys \<Rightarrow> ptr \<Rightarrow> size_t \<Rightarrow> ptr \<Rightarrow> size_t \<Rightarrow> size_t \<Rightarrow> (int \<times> sys) option" where
  "ma_connect s a_in in0 a_out out0 num =
     (case (a_in, a_out) of
        (Some p_in, Some p_out) \<Rightarrow>
          if num = 0 then einval s
          else do {
            A_in \<leftarrow> heap s p_in;
            if in0 + num > input_signals_num A_in then einval s
            else do {
              A_out \<leftarrow> heap s p_out;
              if out0 + num > output_signals_num A_out then einval s
              else do {
                s' \<leftarrow> for_each (size_t_range num)
                  (\<lambda>i s. do {
                     A \<leftarrow> heap s p_in;
                     slot \<leftarrow> nth_opt (incoming_connections A) (unat (in0 + i));
                     s1 \<leftarrow> (if slot \<noteq> None then remove_the_connection s a_in (in0 + i)
                           else Some s);
                     s2 \<leftarrow> create_incoming_connection s1 a_in (in0 + i) a_out (out0 + i);
                     create_outgoing_connection s2 a_out (out0 + i) a_in (in0 + i)
                   }) s;
                Some (0, s')
              }
            }
          }
      | _ \<Rightarrow> einval s)"

definition ma_disconnect :: "sys \<Rightarrow> ptr \<Rightarrow> size_t \<Rightarrow> size_t \<Rightarrow> (int \<times> sys) option" where
  "ma_disconnect s a_in in0 num =
     (case a_in of
        None \<Rightarrow> einval s
      | Some p_in \<Rightarrow>
          if num = 0 then einval s
          else do {
            A_in \<leftarrow> heap s p_in;
            if in0 + num > input_signals_num A_in then einval s
            else do {
              s' \<leftarrow> for_each (size_t_range num) (\<lambda>i s. remove_the_connection s a_in (in0 + i)) s;
              Some (0, s')
            }
          })"

section \<open>Step engine\<close>

definition get_input :: "sys \<Rightarrow> ptr \<Rightarrow> sys option" where
  "get_input s a =
     (case a of
        None \<Rightarrow> Some (s\<lparr>errno := EINVAL\<rparr>)
      | Some p \<Rightarrow> do {
          A0 \<leftarrow> heap s p;
          let input_signals = input_signals_num A0;
          s1 \<leftarrow> for_each (size_t_range input_signals)
            (\<lambda>i s. do {
               A \<leftarrow> heap s p;
               current \<leftarrow> nth_opt (incoming_connections A) (unat i);
               case current of
                 None \<Rightarrow> Some s
               | Some node \<Rightarrow>
                   (case source_aut node of
                      None \<Rightarrow> Some s
                    | Some p_src \<Rightarrow> do {
                        S \<leftarrow> heap s p_src;
                        (bit_value, s') \<leftarrow> get_bit s (Some (a_output S)) (source_bit node);
                        (arr, s'') \<leftarrow> set_bit_c s' bit_value (a_input A) (i div 64) (i mod 64);
                        A' \<leftarrow> heap s'' p;
                        Some (store s'' p (A'\<lparr>a_input := arr\<rparr>))
                      })
             }) s;
          let bit_offset = input_signals mod 64;
          if bit_offset \<noteq> 0 then do {
            A1 \<leftarrow> heap s1 p;
            inp \<leftarrow> a_input A1;
            inp' \<leftarrow> and_block inp (input_signals div 64) (create_bit_mask bit_offset);
            Some (store s1 p (A1\<lparr>a_input := Some inp'\<rparr>))
          } else Some s1
        })"

fun null_in_the_array_loop :: "ptr list \<Rightarrow> size_t list \<Rightarrow> bool option" where
  "null_in_the_array_loop a [] = Some False"
| "null_in_the_array_loop a (i # rest) = do {
     x \<leftarrow> nth_opt a (unat i);
     if x = None then Some True else null_in_the_array_loop a rest
   }"

definition null_in_the_array :: "ptr list \<Rightarrow> size_t \<Rightarrow> bool option" where
  "null_in_the_array a sz = null_in_the_array_loop a (size_t_range sz)"

definition calculate_new_state :: "sys \<Rightarrow> ptr \<Rightarrow> sys option" where
  "calculate_new_state s a =
     (case a of
        None \<Rightarrow> Some (s\<lparr>errno := EINVAL\<rparr>)
      | Some p \<Rightarrow> do {
          A \<leftarrow> heap s p;
          let state_offset = state_signals_num A mod 64;
          let output_offset = output_signals_num A mod 64;
          let state_blocks = (state_signals_num A + 63) div 64;
          let output_blocks = (output_signals_num A + 63) div 64;
          let (ok, s1) = calloc s state_blocks 8;
          if \<not> ok then Some (s1\<lparr>errno := ENOMEM\<rparr>)
          else do {
            next_state \<leftarrow> call_transition (transition_function A) (replicate (unat state_blocks) 0)
                            (a_input A) (a_state A) (input_signals_num A) (state_signals_num A);
            st \<leftarrow> memcpy (a_state A) next_state state_blocks;
            st' \<leftarrow> (if state_offset \<noteq> 0
                    then and_block st (state_blocks - 1) (create_bit_mask state_offset)
                    else Some st);
            out \<leftarrow> call_output (output_function A) (a_output A) st'
                     (output_signals_num A) (state_signals_num A);
            out' \<leftarrow> (if output_offset \<noteq> 0
                     then and_block out (output_blocks - 1) (create_bit_mask output_offset)
                     else Some out);
            Some (store s1 p (A\<lparr>a_state := st', a_output := out'\<rparr>))
          }
        })"

definition ma_step :: "sys \<Rightarrow> ptr list option \<Rightarrow> size_t \<Rightarrow> (int \<times> sys) option" where
  "ma_step s at num =
     (case at of
        None \<Rightarrow> einval s
      | Some arr \<Rightarrow>
          if num = 0 then einval s
          else do {
            has_null \<leftarrow> null_in_the_array arr num;
            if has_null then einval s
            else do {
              s1 \<leftarrow> for_each (size_t_range num)
                (\<lambda>i s. do { a \<leftarrow> nth_opt arr (unat i); get_input s a }) s;
              s2 \<leftarrow> for_each (size_t_range num)
                (\<lambda>i s. do { a \<leftarrow> nth_opt arr (unat i); calculate_new_state s a }) s1;
              Some (0, s2)
            }
          })"

section \<open>Properties of the connection graph and of the buffers\<close>

text \<open>
  Link symmetry: \<open>(b, j)\<close> sits in the incoming slot \<open>i\<close> of \<open>a\<close> exactly when \<open>(a, i)\<close>
  is in the outgoing list \<open>j\<close> of \<open>b\<close>, for all live automata \<open>a\<close> and \<open>b\<close>.
\<close>

definition links_symmetric :: "sys \<Rightarrow> bool" where
  "links_symmetric s =
     (\<forall>a A b B i j. heap s a = Some A \<and> heap s b = Some B
        \<and> unat i < length (incoming_connections A) \<and> unat j < length (outgoing_connections B)
        \<longrightarrow> (incoming_connections A ! unat i = Some (Incoming (Some b) j))
            = (Outgoing (Some a) i \<in> set (outgoing_connections B ! unat j)))"

text \<open>No outgoing list of a live automaton holds an entry twice.\<close>

definition outgoing_unique :: "sys \<Rightarrow> bool" where
  "outgoing_unique s =
     (\<forall>p A. heap s p = Some A \<longrightarrow> (\<forall>l \<in> set (outgoing_connections A). distinct l))"

text \<open>
  The bits at positions \<open>k\<close> and above of the last block of a buffer of \<open>k\<close> signals
  are zero (nothing to check when \<open>k\<close> is a multiple of 64).
\<close>

definition tail_clear :: "size_t \<Rightarrow> bits \<Rightarrow> bool" where
  "tail_clear k buf = (k mod 64 = 0 \<or> drop_bit (unat (k mod 64)) (last buf) = 0)"

definition tails_clear :: "moore_t \<Rightarrow> bool" where
  "tails_clear A =
     ((case a_input A of None \<Rightarrow> True | Some inp \<Rightarrow> tail_clear (input_signals_num A) inp)
      \<and> tail_clear (state_signals_num A) (a_state A)
      \<and> tail_clear (output_signals_num A) (a_output A))"

text \<open>Signal \<open>i\<close> of a buffer: bit \<open>i mod 64\<close> of block \<open>i div 64\<close>.\<close>

definition test_bit :: "bits \<Rightarrow> nat \<Rightarrow> bool" where
  "test_bit buf i = bit (buf ! (i div 64)) (i mod 64)"

text \<open>Buffer \<open>arr\<close> with signal \<open>i\<close> set to \<open>v\<close>: what \<open>set_bit\<close> stores.\<close>

definition write_bit :: "bits \<Rightarrow> nat \<Rightarrow> bool \<Rightarrow> bits" where
  "write_bit arr i v =
     arr[i div 64 := (if v then arr ! (i div 64) OR push_bit (i mod 64) 1
                      else arr ! (i div 64) AND NOT (push_bit (i mod 64) 1))]"

section \<open>The two phases of a step, automaton by automaton\<close>

text \<open>
  What \<open>get_input\<close> does to one automaton, as a function of that automaton and of the
  output buffers \<open>outs\<close> of the live automata: \<open>refresh_bit\<close> is one round of its loop
  on the input buffer \<open>inp\<close>, \<open>refresh_input\<close> the loop followed by the masking of the
  last block.  The flag tells whether \<open>set_bit\<close> stored \<open>EINVAL\<close> in \<open>errno\<close> (a
  connected bit of an automaton whose input buffer is \<open>NULL\<close>).
\<close>

definition refresh_bit ::
  "(addr \<Rightarrow> bits option) \<Rightarrow> incoming_t option list \<Rightarrow> size_t \<Rightarrow> bits option \<times> bool
     \<Rightarrow> (bits option \<times> bool) option" where
  "refresh_bit outs incs i acc =
     (case nth_opt incs (unat i) of
        None \<Rightarrow> None
      | Some None \<Rightarrow> Some acc
      | Some (Some node) \<Rightarrow>
          (case source_aut node of
             None \<Rightarrow> Some acc
           | Some p_src \<Rightarrow>
               (case outs p_src of
                  None \<Rightarrow> None
                | Some out \<Rightarrow>
                    if unat (source_bit node) div 64 < length out then
                      (case fst acc of
                         None \<Rightarrow> Some (None, True)
                       | Some arr \<Rightarrow>
                           if unat i div 64 < length arr
                           then Some (Some (write_bit arr (unat i)
                                        (test_bit out (unat (source_bit node)))), snd acc)
                           else None)
                    else None)))"

definition refresh_input :: "(addr \<Rightarrow> bits option) \<Rightarrow> moore_t \<Rightarrow> (moore_t \<times> bool) option" where
  "refresh_input outs A = do {
     (inp1, e) \<leftarrow> for_each (size_t_range (input_signals_num A))
                    (refresh_bit outs (incoming_connections A)) (a_input A, False);
     if input_signals_num A mod 64 \<noteq> 0 then do {
       arr \<leftarrow> inp1;
       arr' \<leftarrow> and_block arr (input_signals_num A div 64)
                (create_bit_mask (input_signals_num A mod 64));
       Some (A\<lparr>a_input := Some arr'\<rparr>, e)
     } else Some (A\<lparr>a_input := inp1\<rparr>, e)
   }"

text \<open>
  What \<open>calculate_new_state\<close> does to one automaton once its scratch buffer is
  allocated: the transition callback on a zeroed buffer, the copy into the state, the
  masking of the state, the output callback, the masking of the output.
\<close>

definition new_state_and_output :: "moore_t \<Rightarrow> moore_t option" where
  "new_state_and_output A =
     (let state_offset = state_signals_num A mod 64;
          output_offset = output_signals_num A mod 64;
          state_blocks = (state_signals_num A + 63) div 64;
          output_blocks = (output_signals_num A + 63) div 64
      in do {
        next_state \<leftarrow> call_transition (transition_function A) (replicate (unat state_blocks) 0)
                        (a_input A) (a_state A) (input_signals_num A) (state_signals_num A);
        st \<leftarrow> memcpy (a_state A) next_state state_blocks;
        st' \<leftarrow> (if state_offset \<noteq> 0
                then and_block st (state_blocks - 1) (create_bit_mask state_offset)
                else Some st);
        out \<leftarrow> call_output (output_function A) (a_output A) st'
                 (output_signals_num A) (state_signals_num A);
        out' \<leftarrow> (if output_offset \<noteq> 0
                 then and_block out (output_blocks - 1) (create_bit_mask output_offset)
                 else Some out);
        Some (A\<lparr>a_state := st', a_output := out'\<rparr>)
      })"

text \<open>No allocation that is still to come fails.\<close>

definition no_alloc_failure :: "sys \<Rightarrow> bool" where
  "no_alloc_failure s = (False \<notin> set (allocs s))"

text \<open>The output buffers of the live automata.\<close>

definition outputs :: "sys \<Rightarrow> addr \<Rightarrow> bits option" where
  "outputs s p = map_option a_output (heap s p)"

text \<open>
  One round of each loop of \<open>ma_step\<close> on the contents of one automaton (\<open>None\<close> is
  undefined behaviour): \<open>refreshed s\<close> is the input refresh of \<open>get_input\<close> against the
  output buffers of the system \<open>s\<close>, \<open>transitioned\<close> is the transition and output
  computation of \<open>calculate_new_state\<close>.
\<close>

definition refreshed :: "sys \<Rightarrow> moore_t option \<Rightarrow> moore_t option" where
  "refreshed s X = X \<bind> (\<lambda>A. map_option fst (refresh_input (outputs s) A))"

definition transitioned :: "moore_t option \<Rightarrow> moore_t option" where
  "transitioned X = X \<bind> new_state_and_output"

section \<open>Example systems\<close>

definition sys_init :: "bool list \<Rightarrow> sys" where
  "sys_init al = \<lparr>heap = Map.empty, errno = ENONE, allocs = al, next_addr = 0\<rparr>"

text \<open>A transition callback that copies the input to the next state (equal widths).\<close>

definition copy_input :: transition_function_t where
  "copy_input next_state inp st n k = inp"

text \<open>A transition callback that adds one to every block of the state.\<close>

definition increment :: transition_function_t where
  "increment next_state inp st n k = Some (map (\<lambda>w. w + 1) st)"

text \<open>An output callback that copies the state blocks to the output and masks nothing.\<close>

definition copy_state :: output_function_t where
  "copy_state out st m k = Some st"

text \<open>
  Two one-bit automata \<open>A\<close> (address 0) and \<open>B\<close> (address 1) that copy their input,
  wired in a ring, with \<open>A\<close> in state 1 and \<open>B\<close> in state 0.
\<close>

definition ring :: "(ptr \<times> ptr \<times> sys) option" where
  "ring = do {
     (a, s1) \<leftarrow> ma_create_simple (sys_init []) 1 1 (Some copy_input);
     (b, s2) \<leftarrow> ma_create_simple s1 1 1 (Some copy_input);
     (_, s3) \<leftarrow> ma_connect s2 a 0 b 0 1;
     (_, s4) \<leftarrow> ma_connect s3 b 0 a 0 1;
     (_, s5) \<leftarrow> ma_set_state s4 a (Some [1]);
     (_, s6) \<leftarrow> ma_set_state s5 b (Some [0]);
     Some (a, b, s6)
   }"

text \<open>
  Two one-bit automata; the allocator serves the twelve allocations of their
  construction and fails the next one.
\<close>

definition pair_then_oom :: "(ptr \<times> ptr \<times> sys) option" where
  "pair_then_oom = do {
     (a, s1) \<leftarrow> ma_create_simple (sys_init [True, True, True, True, True, True, True, True, True, True, True, True, False]) 1 1 (Some increment);
     (b, s2) \<leftarrow> ma_create_simple s1 1 1 (Some increment);
     Some (a, b, s2)
   }"

section \<open>Sequences of library calls\<close>

text \<open>
  A client of the library is a sequence of calls of its public functions, each with
  any arguments; \<open>exec\<close> runs one call and drops the returned value.
\<close>

datatype call =
    Create_full size_t size_t size_t "transition_function_t option" "output_function_t option"
      "bits option"
  | Create_simple size_t size_t "transition_function_t option"
  | Delete ptr
  | Connect ptr size_t ptr size_t size_t
  | Disconnect ptr size_t size_t
  | Set_input ptr "bits option"
  | Set_state ptr "bits option"
  | Get_output ptr
  | Step "ptr list option" size_t

fun exec :: "call \<Rightarrow> sys \<Rightarrow> sys option" where
  "exec (Create_full n m st t y q) s = map_option snd (ma_create_full s n m st t y q)"
| "exec (Create_simple n m t) s = map_option snd (ma_create_simple s n m t)"
| "exec (Delete a) s = ma_delete s a"
| "exec (Connect a_in in0 a_out out0 num) s = map_option snd (ma_connect s a_in in0 a_out out0 num)"
| "exec (Disconnect a_in in0 num) s = map_option snd (ma_disconnect s a_in in0 num)"
| "exec (Set_input a inp) s = map_option snd (ma_set_input s a inp)"
| "exec (Set_state a st) s = map_option snd (ma_set_state s a st)"
| "exec (Get_output a) s = map_option snd (ma_get_output s a)"
| "exec (Step at num) s = map_option snd (ma_step s at num)"

section \<open>Systems reached by the examples\<close>

text \<open>
  The system that \<open>ring\<close> builds, written out: \<open>A\<close> at address 0 in state 1, \<open>B\<close>
  at address 1 in state 0, each input connected to the output of the other.
\<close>

definition ring_A :: moore_t where
  "ring_A = \<lparr>input_signals_num = 1, output_signals_num = 1, state_signals_num = 1,
      a_state = [1], a_input = Some [0], a_output = [1],
      transition_function = copy_input, output_function = identity_function,
      outgoing_connections = [[Outgoing (Some 1) 0]],
      incoming_connections = [Some (Incoming (Some 1) 0)]\<rparr>"

definition ring_B :: moore_t where
  "ring_B = \<lparr>input_signals_num = 1, output_signals_num = 1, state_signals_num = 1,
      a_state = [0], a_input = Some [0], a_output = [0],
      transition_function = copy_input, output_function = identity_function,
      outgoing_connections = [[Outgoing (Some 0) 0]],
      incoming_connections = [Some (Incoming (Some 0) 0)]\<rparr>"

definition ring_sys :: sys where
  "ring_sys = \<lparr>heap = [0 \<mapsto> ring_A, 1 \<mapsto> ring_B], errno = ENONE, allocs = [], next_addr = 2\<rparr>"

text \<open>
  An automaton \<open>A\<close> with two inputs and an automaton \<open>B\<close> with one output, created by
  \<open>ma_create_simple\<close>; input 0 of \<open>A\<close> is connected to output 0 of \<open>B\<close>, disconnected
  and connected again.  \<open>wired_sys\<close> is the system these calls reach.
\<close>

definition wired_A :: moore_t where
  "wired_A = \<lparr>input_signals_num = 2, output_signals_num = 2, state_signals_num = 2,
      a_state = [0], a_input = Some [0], a_output = [0],
      transition_function = increment, output_function = identity_function,
      outgoing_connections = [[], []],
      incoming_connections = [Some (Incoming (Some 1) 0), None]\<rparr>"

definition wired_B :: moore_t where
  "wired_B = \<lparr>input_signals_num = 1, output_signals_num = 1, state_signals_num = 1,
      a_state = [0], a_input = Some [0], a_output = [0],
      transition_function = increment, output_function = identity_function,
      outgoing_connections = [[Outgoing (Some 0) 0]],
      incoming_connections = [None]\<rparr>"

definition wired_sys :: sys where
  "wired_sys = \<lparr>heap = [0 \<mapsto> wired_A, 1 \<mapsto> wired_B], errno = ENONE, allocs = [], next_addr = 2\<rparr>"

definition wired_calls :: "call list" where
  "wired_calls = [Create_simple 2 2 (Some increment), Create_simple 1 1 (Some increment),
     Connect (Some 0) 0 (Some 1) 0 1, Disconnect (Some 0) 0 1, Connect (Some 0) 0 (Some 1) 0 1]"

text \<open>
  One automaton with eight state bits whose transition adds one to the state, as
  \<open>ma_create_simple\<close> leaves it; \<open>counter_then_oom\<close> is the same automaton with an
  allocator that serves the six allocations of the construction and one more, and
  fails the next one.  \<open>counters_then_oom\<close> is two such automata, \<open>A\<close> put in state 5
  and \<open>B\<close> in state 7, with an allocator that serves the twelve allocations of their
  construction and fails the next one.
\<close>

definition counter_A :: moore_t where
  "counter_A = \<lparr>input_signals_num = 1, output_signals_num = 8, state_signals_num = 8,
      a_state = [0], a_input = Some [0], a_output = [0],
      transition_function = increment, output_function = identity_function,
      outgoing_connections = [[], [], [], [], [], [], [], []],
      incoming_connections = [None]\<rparr>"

definition counter_sys :: sys where
  "counter_sys = \<lparr>heap = [0 \<mapsto> counter_A], errno = ENONE, allocs = [], next_addr = 1\<rparr>"

definition counter_then_oom :: "(ptr \<times> sys) option" where
  "counter_then_oom =
     ma_create_simple (sys_init [True, True, True, True, True, True, True, False]) 1 8 (Some increment)"

definition counters_then_oom :: "(ptr \<times> ptr \<times> sys) option" where
  "counters_then_oom = do {
     (a, s1) \<leftarrow> ma_create_simple (sys_init [True, True, True, True, True, True, True, True, True, True, True, True, False]) 1 8 (Some increment);
     (b, s2) \<leftarrow> ma_create_simple s1 1 8 (Some increment);
     (_, s3) \<leftarrow> ma_set_state s2 a (Some [5]);
     (_, s4) \<leftarrow> ma_set_state s3 b (Some [7]);
     Some (a, b, s4)
   }"

section \<open>Evaluation rules\<close>

lemma size_t_range_1: "size_t_range 1 = [0]"
  by (simp add: size_t_range_def)

lemma size_t_range_2: "size_t_range 2 = [0, 1]"
  by (simp add: size_t_range_def upt_rec)

lemma size_t_range_3: "size_t_range 3 = [0, 1, 2]"
  by (simp add: size_t_range_def upt_rec)

lemmas model_defs = malloc_def calloc_def nth_opt_def store_def einval_def
  create_bit_mask_def get_bit_def set_bit_c_def memcpy_def and_block_def
  remove_from_the_outgoing_list_def create_incoming_connection_def create_outgoing_connection_def
  remove_the_connection_def clear_receiver_def clear_the_connections_def free_automaton_def
  initialize_automaton_def allocate_automaton_def call_transition_def call_output_def
  identity_function_def ma_set_input_def ma_set_state_def ma_get_output_def
  ma_create_full_def ma_create_simple_def ma_delete_def ma_connect_def ma_disconnect_def
  get_input_def null_in_the_array_def calculate_new_state_def ma_step_def
  size_t_range_1 size_t_range_2 size_t_range_3

section \<open>Loops and frames\<close>

lemma for_each_append:
  "for_each (xs @ ys) f s = (case for_each xs f s of None \<Rightarrow> None | Some s' \<Rightarrow> for_each ys f s')"
  by (induction xs arbitrary: s) (auto split: option.splits)

lemma for_each_map: "for_each (map g xs) f s = for_each xs (\<lambda>x. f (g x)) s"
  by (induction xs arbitrary: s) (auto split: option.splits)

lemma for_each_cong:
  "(\<And>x t. x \<in> set xs \<Longrightarrow> f x t = g x t) \<Longrightarrow> for_each xs f s = for_each xs g s"
  by (induction xs arbitrary: s) (auto split: option.splits)

lemma for_each_invariant:
  assumes "for_each xs f s = Some s'" and "P s"
    and "\<And>x t t'. x \<in> set xs \<Longrightarrow> P t \<Longrightarrow> f x t = Some t' \<Longrightarrow> P t'"
  shows "P s'"
  using assms
proof (induction xs arbitrary: s)
  case Nil
  then show ?case by simp
next
  case (Cons x xs)
  from Cons.prems(1) obtain t where t: "f x s = Some t" "for_each xs f t = Some s'"
    by (auto split: option.splits)
  have "P t" using Cons.prems(3)[OF _ Cons.prems(2) t(1)] by simp
  then show ?case using Cons.IH[OF t(2)] Cons.prems(3) by auto
qed

lemma existing_connection_loop_iff:
  "existing_connection_loop l e g b = (e \<or> Outgoing g b \<in> set l)"
proof (induction l arbitrary: e)
  case Nil
  then show ?case by simp
next
  case (Cons c l)
  then show ?case by (cases c) auto
qed

lemma set_remove_loop: "set (remove_from_the_outgoing_list_loop l a b) \<subseteq> set l"
  by (induction l) auto

lemma distinct_remove_loop: "distinct l \<Longrightarrow> distinct (remove_from_the_outgoing_list_loop l a b)"
  using set_remove_loop by (induction l) auto

lemma distinct_remove_from_the_outgoing_list:
  "distinct l \<Longrightarrow> remove_from_the_outgoing_list s l a b = (l', s') \<Longrightarrow> distinct l' \<and> heap s' = heap s"
  by (auto simp: remove_from_the_outgoing_list_def distinct_remove_loop split: if_splits)

lemma outgoing_unique_store:
  "outgoing_unique s \<Longrightarrow> \<forall>l\<in>set (outgoing_connections A). distinct l \<Longrightarrow> outgoing_unique (store s p A)"
  by (auto simp: outgoing_unique_def store_def)

lemma outgoing_unique_heap_eq: "heap s' = heap s \<Longrightarrow> outgoing_unique s' = outgoing_unique s"
  by (simp add: outgoing_unique_def)

lemma outgoing_unique_lookup:
  "outgoing_unique s \<Longrightarrow> heap s p = Some A \<Longrightarrow> \<forall>l\<in>set (outgoing_connections A). distinct l"
  by (auto simp: outgoing_unique_def)

lemma distinct_lists_update:
  "\<forall>l\<in>set xs. distinct l \<Longrightarrow> distinct l' \<Longrightarrow> \<forall>l\<in>set (xs[i := l']). distinct l"
  by (metis insert_iff set_update_subset_insert subsetD)


lemma outgoing_unique_errno [simp]: "outgoing_unique (s\<lparr>errno := e\<rparr>) = outgoing_unique s"
  by (simp add: outgoing_unique_def)

lemma outgoing_unique_allocs [simp]: "outgoing_unique (s\<lparr>allocs := e\<rparr>) = outgoing_unique s"
  by (simp add: outgoing_unique_def)

lemma outgoing_unique_next_addr [simp]: "outgoing_unique (s\<lparr>next_addr := e\<rparr>) = outgoing_unique s"
  by (simp add: outgoing_unique_def)

lemma heap_store [simp]: "heap (store s p A) = (heap s)(p \<mapsto> A)"
  by (simp add: store_def)


lemma outgoing_unique_nth:
  "\<lbrakk>outgoing_unique s; heap s p = Some A; i < length (outgoing_connections A)\<rbrakk>
    \<Longrightarrow> distinct (outgoing_connections A ! i)"
  by (auto simp: outgoing_unique_def)

lemma outgoing_unique_update:
  "\<lbrakk>l \<in> set ((outgoing_connections A)[i := l']); outgoing_unique s; heap s p = Some A; distinct l'\<rbrakk>
    \<Longrightarrow> distinct l"
  using distinct_lists_update outgoing_unique_lookup by blast

lemma outgoing_unique_member:
  "\<lbrakk>outgoing_unique s; heap s p = Some A; l \<in> set (outgoing_connections A)\<rbrakk> \<Longrightarrow> distinct l"
  by (auto simp: outgoing_unique_def)

lemma allocs_store [simp]: "allocs (store s p A) = allocs s"
  by (simp add: store_def)

lemma errno_store [simp]: "errno (store s p A) = errno s"
  by (simp add: store_def)

lemma next_addr_store [simp]: "next_addr (store s p A) = next_addr s"
  by (simp add: store_def)

lemma outgoing_unique_remove_the_connection:
  "outgoing_unique s \<Longrightarrow> remove_the_connection s a b = Some s' \<Longrightarrow> outgoing_unique s'"
  by (auto simp: remove_the_connection_def Let_def nth_opt_def remove_from_the_outgoing_list_def
        split: option.splits if_splits bind_splits
        intro!: outgoing_unique_store distinct_remove_loop outgoing_unique_nth
        elim!: outgoing_unique_update intro: outgoing_unique_member)

lemma outgoing_unique_create_incoming_connection:
  "outgoing_unique s \<Longrightarrow> create_incoming_connection s g b v j = Some s' \<Longrightarrow> outgoing_unique s'"
  by (auto simp: create_incoming_connection_def Let_def nth_opt_def remove_from_the_outgoing_list_def malloc_def
        split: option.splits if_splits bind_splits list.splits
        intro!: outgoing_unique_store distinct_remove_loop outgoing_unique_nth
        elim!: outgoing_unique_update intro: outgoing_unique_member)

lemma outgoing_unique_create_outgoing_connection:
  "outgoing_unique s \<Longrightarrow> create_outgoing_connection s v j g b = Some s' \<Longrightarrow> outgoing_unique s'"
  by (auto simp: create_outgoing_connection_def Let_def nth_opt_def malloc_def existing_connection_loop_iff
        split: option.splits if_splits bind_splits list.splits
        intro!: outgoing_unique_store distinct_remove_loop outgoing_unique_nth
        elim!: outgoing_unique_update intro: outgoing_unique_member)


lemma malloc_frame:
  "malloc s = (ok, s') \<Longrightarrow> heap s' = heap s \<and> errno s' = errno s \<and> next_addr s' = next_addr s"
  by (auto simp: malloc_def split: list.splits)

lemma calloc_frame:
  "calloc s n k = (ok, s') \<Longrightarrow> heap s' = heap s \<and> errno s' = errno s \<and> next_addr s' = next_addr s"
  by (auto simp: calloc_def dest: malloc_frame split: if_splits)

lemma allocate_automaton_Some:
  assumes "allocate_automaton s a n m st = (Some a', s')"
  shows "heap s' = heap s \<and> errno s' = errno s \<and> next_addr s' = next_addr s
    \<and> a' = a\<lparr>a_input := (if n \<noteq> 0 then Some (replicate (unat ((n + 63) div 64)) 0) else None),
              a_output := replicate (unat ((m + 63) div 64)) 0,
              a_state := replicate (unat ((st + 63) div 64)) 0,
              incoming_connections := replicate (unat n) None,
              outgoing_connections := replicate (unat m) []\<rparr>"
  using assms unfolding allocate_automaton_def Let_def
  by (auto split: if_splits prod.splits dest!: calloc_frame)

lemma initialize_automaton_frame:
  "initialize_automaton s n m st t y = (r, s') \<Longrightarrow> heap s' = heap s \<and> next_addr s' = next_addr s"
  by (auto simp: initialize_automaton_def split: option.splits if_splits)

section \<open>Bits of a buffer\<close>

lemma unat_div_64 [simp]: "unat ((i :: 64 word) div 64) = unat i div 64"
  by (simp add: unat_div)

lemma unat_mod_64 [simp]: "unat ((i :: 64 word) mod 64) = unat i mod 64"
  by (simp add: unat_mod)

lemma low_bit_drop_bit: "uint (drop_bit n (w :: 64 word) AND 1) = (if bit w n then 1 else 0)"
  by (simp add: and_one_eq mod_2_eq_odd bit_iff_odd_drop_bit)

lemma get_bit_Some:
  "unat i div 64 < length src \<Longrightarrow>
    get_bit s (Some src) i = Some (if test_bit src (unat i) then 1 else 0, s)"
  by (simp add: get_bit_def nth_opt_def test_bit_def low_bit_drop_bit)

lemma get_bit_None_iff:
  "get_bit s (Some src) i = None \<longleftrightarrow> \<not> unat i div 64 < length src"
  by (simp add: get_bit_def nth_opt_def)

lemma set_bit_c_Some:
  "unat i div 64 < length arr \<Longrightarrow>
    set_bit_c s v (Some arr) (i div 64) (i mod 64) = Some (Some (write_bit arr (unat i) (v = 1)), s)"
  by (simp add: set_bit_c_def nth_opt_def write_bit_def)

lemma length_write_bit [simp]: "length (write_bit arr i v) = length arr"
  by (simp add: write_bit_def)

lemma test_bit_write_bit:
  "i div 64 < length arr \<Longrightarrow> k div 64 < length arr \<Longrightarrow>
    test_bit (write_bit arr i v) k = (if k = i then v else test_bit arr k)"
proof -
  assume i: "i div 64 < length arr" and k: "k div 64 < length arr"
  have eq: "k = i \<longleftrightarrow> k div 64 = i div 64 \<and> k mod 64 = i mod 64"
    by (metis div_mult_mod_eq)
  have m: "i mod 64 < 64" "k mod 64 < 64" by simp_all
  show ?thesis
  proof (cases "k div 64 = i div 64")
    case True
    then show ?thesis using i m
      by (auto simp: eq test_bit_def write_bit_def bit_simps)
  next
    case False
    then show ?thesis using i k
      by (auto simp: eq test_bit_def write_bit_def)
  qed
qed


lemma for_each_upt_total:
  assumes "I 0 s" and "\<And>k t. k < n \<Longrightarrow> I k t \<Longrightarrow> \<exists>t'. f k t = Some t' \<and> I (Suc k) t'"
  shows "\<exists>t'. for_each [0..<n] f s = Some t' \<and> I n t'"
  using assms(2)
proof (induction n)
  case 0
  then show ?case using assms(1) by simp
next
  case (Suc n)
  then obtain t where t: "for_each [0..<n] f s = Some t" "I n t"
    by (metis less_Suc_eq)
  from Suc.prems[of n t] t(2) obtain t' where "f n t = Some t'" "I (Suc n) t'"
    by auto
  then show ?case using t by (simp add: for_each_append)
qed

lemma for_each_size_t_range:
  "for_each (size_t_range n) f s = for_each [0..<unat n] (\<lambda>k. f (word_of_nat k)) s"
  by (simp add: size_t_range_def for_each_map)

lemma unat_index: "k < unat (n :: 64 word) \<Longrightarrow> unat (word_of_nat k :: 64 word) = k"
  by (metis le_unat_uoi less_imp_le_nat)

lemma store_same [simp]: "heap s p = Some A \<Longrightarrow> s\<lparr>heap := (heap s)(p \<mapsto> A)\<rparr> = s"
  by (simp add: fun_upd_idem)

section \<open>Uniqueness of outgoing entries\<close>

lemma outgoing_unique_for_each:
  assumes "for_each xs f s = Some s'" and "outgoing_unique s"
    and "\<And>x t t'. outgoing_unique t \<Longrightarrow> f x t = Some t' \<Longrightarrow> outgoing_unique t'"
  shows "outgoing_unique s'"
  using assms(1,2) by (rule for_each_invariant) (rule assms(3))

lemma outgoing_unique_clear_receiver:
  "outgoing_unique s \<Longrightarrow> clear_receiver c s = Some s' \<Longrightarrow> outgoing_unique s'"
  by (auto simp: clear_receiver_def nth_opt_def split: option.splits if_splits bind_splits
        intro!: outgoing_unique_store intro: outgoing_unique_member)

lemma outgoing_unique_clear_the_connections:
  assumes "outgoing_unique s" and "clear_the_connections s a = Some s'"
  shows "outgoing_unique s'"
proof (cases a)
  case None
  then show ?thesis using assms by (auto simp: clear_the_connections_def)
next
  case (Some p)
  from assms(2) Some obtain A s1 where A: "heap s p = Some A"
    and s1: "for_each (size_t_range (input_signals_num A)) (\<lambda>i s. remove_the_connection s a i) s = Some s1"
    and s': "for_each (size_t_range (output_signals_num A))
            (\<lambda>i s. do {
               A' \<leftarrow> heap s p;
               current \<leftarrow> nth_opt (outgoing_connections A') (unat i);
               s' \<leftarrow> for_each current clear_receiver s;
               A'' \<leftarrow> heap s' p;
               Some (store s' p
                 (A''\<lparr>outgoing_connections := (outgoing_connections A'')[unat i := []]\<rparr>))
             }) s1 = Some s'"
    by (auto simp: clear_the_connections_def Let_def split: bind_splits)
  have u1: "outgoing_unique s1"
    using s1 assms(1) by (rule outgoing_unique_for_each) (rule outgoing_unique_remove_the_connection)
  show ?thesis
    using s' u1
  proof (rule outgoing_unique_for_each)
    fix x t t'
    assume t: "outgoing_unique t"
      and step: "heap t p \<bind> (\<lambda>A'. nth_opt (outgoing_connections A') (unat x) \<bind>
        (\<lambda>current. for_each current clear_receiver t \<bind>
          (\<lambda>s'. heap s' p \<bind> (\<lambda>A''. Some (store s' p
            (A''\<lparr>outgoing_connections := (outgoing_connections A'')[unat x := []]\<rparr>)))))) = Some t'"
    then obtain current t1 A'' where t1: "for_each current clear_receiver t = Some t1"
      and A'': "heap t1 p = Some A''"
      and t': "t' = store t1 p (A''\<lparr>outgoing_connections := (outgoing_connections A'')[unat x := []]\<rparr>)"
      by (auto split: bind_splits)
    have "outgoing_unique t1"
      using t1 t by (rule outgoing_unique_for_each) (rule outgoing_unique_clear_receiver)
    then show "outgoing_unique t'"
      unfolding t' using A''
      by (auto intro!: outgoing_unique_store elim!: outgoing_unique_update)
  qed
qed

lemma outgoing_unique_free_automaton:
  "outgoing_unique s \<Longrightarrow> free_automaton s a = Some s' \<Longrightarrow> outgoing_unique s'"
  by (auto simp: free_automaton_def outgoing_unique_def split: option.splits bind_splits if_splits)

lemma outgoing_unique_ma_delete:
  "outgoing_unique s \<Longrightarrow> ma_delete s a = Some s' \<Longrightarrow> outgoing_unique s'"
  by (auto simp: ma_delete_def split: option.splits bind_splits
        dest: outgoing_unique_clear_the_connections outgoing_unique_free_automaton)

lemma outgoing_unique_ma_disconnect:
  assumes "outgoing_unique s" and "ma_disconnect s a in0 num = Some (r, s')"
  shows "outgoing_unique s'"
proof (cases "r = 0")
  case False
  then show ?thesis using assms
    by (auto simp: ma_disconnect_def einval_def split: option.splits bind_splits if_splits)
next
  case True
  with assms(2) have "for_each (size_t_range num) (\<lambda>i s. remove_the_connection s a (in0 + i)) s = Some s'"
    by (auto simp: ma_disconnect_def einval_def split: option.splits bind_splits if_splits)
  then show ?thesis
    using assms(1) by (rule outgoing_unique_for_each) (rule outgoing_unique_remove_the_connection)
qed

lemma outgoing_unique_ma_connect:
  assumes "outgoing_unique s" and "ma_connect s a in0 b out0 num = Some (r, s')"
  shows "outgoing_unique s'"
proof (cases "r = 0")
  case False
  then show ?thesis using assms
    by (auto simp: ma_connect_def einval_def split: option.splits bind_splits if_splits)
next
  case True
  with assms(2) obtain p_in where a: "a = Some p_in" and
    loop: "for_each (size_t_range num)
       (\<lambda>i s. do {
          A \<leftarrow> heap s p_in;
          slot \<leftarrow> nth_opt (incoming_connections A) (unat (in0 + i));
          s1 \<leftarrow> (if slot \<noteq> None then remove_the_connection s a (in0 + i) else Some s);
          s2 \<leftarrow> create_incoming_connection s1 a (in0 + i) b (out0 + i);
          create_outgoing_connection s2 b (out0 + i) a (in0 + i)
        }) s = Some s'"
    by (auto simp: ma_connect_def einval_def split: option.splits bind_splits if_splits)
  from loop assms(1) show ?thesis
  proof (rule outgoing_unique_for_each)
    fix x t t'
    assume "outgoing_unique t"
      and "heap t p_in \<bind> (\<lambda>A. nth_opt (incoming_connections A) (unat (in0 + x)) \<bind>
        (\<lambda>slot. (if slot \<noteq> None then remove_the_connection t a (in0 + x) else Some t) \<bind>
          (\<lambda>s1. create_incoming_connection s1 a (in0 + x) b (out0 + x) \<bind>
            (\<lambda>s2. create_outgoing_connection s2 b (out0 + x) a (in0 + x))))) = Some t'"
    then show "outgoing_unique t'"
      by (auto split: bind_splits if_splits)
        (blast intro: outgoing_unique_remove_the_connection outgoing_unique_create_incoming_connection
              outgoing_unique_create_outgoing_connection)+
  qed
qed


lemma get_bit_frame:
  "get_bit s src i = Some (v, s') \<Longrightarrow> heap s' = heap s \<and> allocs s' = allocs s \<and> next_addr s' = next_addr s"
  by (auto simp: get_bit_def Let_def split: option.splits bind_splits)

lemma set_bit_c_frame:
  "set_bit_c s v arr blk i = Some (arr', s') \<Longrightarrow> heap s' = heap s \<and> allocs s' = allocs s \<and> next_addr s' = next_addr s"
  by (auto simp: set_bit_c_def split: option.splits bind_splits)

section \<open>The phases of a step as functions of one automaton\<close>

lemma calculate_new_state_eq:
  "calculate_new_state s (Some p) =
     (case heap s p of
        None \<Rightarrow> None
      | Some A \<Rightarrow>
          (case calloc s ((state_signals_num A + 63) div 64) 8 of
             (ok, s1) \<Rightarrow>
               if \<not> ok then Some (s1\<lparr>errno := ENOMEM\<rparr>)
               else do { A' \<leftarrow> new_state_and_output A; Some (store s1 p A') }))"
  by (simp add: calculate_new_state_def new_state_and_output_def Let_def
        split: option.splits prod.splits)

text \<open>
  When the allocation of the scratch buffer fails, \<open>calculate_new_state\<close> stores
  \<open>ENOMEM\<close> and leaves every automaton as it is.
\<close>

lemma calculate_new_state_alloc_failure:
  assumes "heap s p = Some A" and "allocs s = False # rest"
  shows "calculate_new_state s (Some p) = Some (s\<lparr>allocs := rest, errno := ENOMEM\<rparr>)"
proof -
  have "unat (state_signals_num A + 63) < 2 ^ 64"
    using unsigned_less[of "state_signals_num A + 63", where ?'a = nat] by simp
  then have "unat ((state_signals_num A + 63) div 64) * 8 < 2 ^ 64" by (simp add: unat_div)
  then show ?thesis
    using assms by (simp add: calculate_new_state_eq calloc_def malloc_def)
qed

lemma malloc_no_failure:
  "no_alloc_failure s \<Longrightarrow> malloc s = (True, s\<lparr>allocs := tl (allocs s)\<rparr>)"
  by (cases "allocs s") (auto simp: malloc_def no_alloc_failure_def)

lemma calloc_blocks_no_failure:
  "no_alloc_failure s \<Longrightarrow> calloc s (x div 64) 8 = (True, s\<lparr>allocs := tl (allocs s)\<rparr>)"
proof -
  have "unat x < 2 ^ 64" using unsigned_less[of x, where ?'a = nat] by simp
  then have "unat (x div 64) * 8 < 2 ^ 64" by (simp add: unat_div) 
  then show "no_alloc_failure s \<Longrightarrow> ?thesis"
    by (simp add: calloc_def malloc_no_failure)
qed

lemma no_alloc_failure_tl [simp]:
  "no_alloc_failure s \<Longrightarrow> no_alloc_failure (s\<lparr>allocs := tl (allocs s)\<rparr>)"
  by (cases "allocs s") (auto simp: no_alloc_failure_def)

lemma no_alloc_failure_store [simp]: "no_alloc_failure (store s p A) = no_alloc_failure s"
  by (simp add: no_alloc_failure_def)

lemma no_alloc_failure_errno [simp]: "no_alloc_failure (s\<lparr>errno := e\<rparr>) = no_alloc_failure s"
  by (simp add: no_alloc_failure_def)

lemma no_alloc_failure_heap [simp]: "no_alloc_failure (s\<lparr>heap := h\<rparr>) = no_alloc_failure s"
  by (simp add: no_alloc_failure_def)

lemma calculate_new_state_no_failure:
  "no_alloc_failure s \<Longrightarrow>
     calculate_new_state s (Some p) = do {
       A \<leftarrow> heap s p;
       A' \<leftarrow> new_state_and_output A;
       Some (s\<lparr>allocs := tl (allocs s), heap := (heap s)(p \<mapsto> A')\<rparr>)
     }"
  by (simp add: calculate_new_state_eq calloc_blocks_no_failure store_def split: option.splits)


lemma get_input_body:
  assumes A: "heap t p = Some A"
  shows "(do {
               A1 \<leftarrow> heap t p;
               current \<leftarrow> nth_opt (incoming_connections A1) (unat i);
               case current of
                 None \<Rightarrow> Some t
               | Some node \<Rightarrow>
                   (case source_aut node of
                      None \<Rightarrow> Some t
                    | Some p_src \<Rightarrow> do {
                        S \<leftarrow> heap t p_src;
                        (bit_value, s') \<leftarrow> get_bit t (Some (a_output S)) (source_bit node);
                        (arr, s'') \<leftarrow> set_bit_c s' bit_value (a_input A1) (i div 64) (i mod 64);
                        A' \<leftarrow> heap s'' p;
                        Some (store s'' p (A'\<lparr>a_input := arr\<rparr>))
                      })
             })
       = map_option (\<lambda>(inp', e'). t\<lparr>heap := (heap t)(p \<mapsto> A\<lparr>a_input := inp'\<rparr>),
                                   errno := if e' then EINVAL else errno t\<rparr>)
           (refresh_bit (outputs t) (incoming_connections A) i (a_input A, False))"
  using A
  by (auto simp: refresh_bit_def outputs_def nth_opt_def get_bit_def set_bit_c_def write_bit_def
        test_bit_def low_bit_drop_bit store_def Let_def fun_upd_idem
        split: option.splits)

lemma refresh_bit_flag:
  "refresh_bit outs incs i (inp, e)
     = map_option (\<lambda>(x, e'). (x, e \<or> e')) (refresh_bit outs incs i (inp, False))"
  by (auto simp: refresh_bit_def split: option.splits)

lemma outputs_upd_input [simp]:
  "heap s p = Some A \<Longrightarrow>
    outputs (s\<lparr>heap := (heap s)(p \<mapsto> A\<lparr>a_input := inp\<rparr>), errno := e\<rparr>) = outputs s"
  by (auto simp: outputs_def fun_eq_iff)

lemma get_input_loop:
  assumes A: "heap s p = Some A"
  shows "for_each js
            (\<lambda>i s. do {
               A \<leftarrow> heap s p;
               current \<leftarrow> nth_opt (incoming_connections A) (unat i);
               case current of
                 None \<Rightarrow> Some s
               | Some node \<Rightarrow>
                   (case source_aut node of
                      None \<Rightarrow> Some s
                    | Some p_src \<Rightarrow> do {
                        S \<leftarrow> heap s p_src;
                        (bit_value, s') \<leftarrow> get_bit s (Some (a_output S)) (source_bit node);
                        (arr, s'') \<leftarrow> set_bit_c s' bit_value (a_input A) (i div 64) (i mod 64);
                        A' \<leftarrow> heap s'' p;
                        Some (store s'' p (A'\<lparr>a_input := arr\<rparr>))
                      })
             })
            (s\<lparr>heap := (heap s)(p \<mapsto> A\<lparr>a_input := inp\<rparr>), errno := if e then EINVAL else errno s\<rparr>)
       = map_option (\<lambda>(inp', e'). s\<lparr>heap := (heap s)(p \<mapsto> A\<lparr>a_input := inp'\<rparr>), errno := if e' then EINVAL else errno s\<rparr>)
           (for_each js (refresh_bit (outputs s) (incoming_connections A)) (inp, e))"
    (is "for_each js ?body (?S inp e) = map_option ?F (for_each js ?r (inp, e))")
proof -
  define body where "body = ?body"
  have body: "body i (?S inp e) = map_option ?F (?r i (inp, e))" for i inp e
  proof -
    have h: "heap (?S inp e) p = Some (A\<lparr>a_input := inp\<rparr>)" by simp
    have "body i (?S inp e)
        = map_option (\<lambda>(inp', e'). (?S inp e)\<lparr>heap := (heap (?S inp e))(p \<mapsto> A\<lparr>a_input := inp, a_input := inp'\<rparr>),
                                   errno := if e' then EINVAL else errno (?S inp e)\<rparr>)
           (refresh_bit (outputs (?S inp e)) (incoming_connections (A\<lparr>a_input := inp\<rparr>)) i
              (a_input (A\<lparr>a_input := inp\<rparr>), False))"
      unfolding body_def by (rule get_input_body[OF h])
    also have "\<dots> = map_option ?F (?r i (inp, e))"
      using A by (subst (2) refresh_bit_flag) (auto simp: option.map_comp comp_def split_def intro!: map_option_cong)
    finally show ?thesis .
  qed
  have "for_each js body (?S inp e) = map_option ?F (for_each js ?r (inp, e))"
  proof (induction js arbitrary: inp e)
    case Nil
    then show ?case by simp
  next
    case (Cons j js)
    show ?case
    proof (cases "?r j (inp, e)")
      case None
      show ?thesis unfolding for_each.simps body None
        by (simp only: option.map option.case)
    next
      case (Some acc)
      obtain inp' e' where acc: "acc = (inp', e')" by (cases acc)
      show ?thesis unfolding for_each.simps body Some acc
        by (simp only: option.map option.case prod.case Cons.IH[where inp=inp' and e=e'])
    qed
  qed
  then show ?thesis unfolding body_def .
qed

lemma get_input_eq:
  "get_input s (Some p) = do {
     A \<leftarrow> heap s p;
     (A', e) \<leftarrow> refresh_input (outputs s) A;
     Some (s\<lparr>heap := (heap s)(p \<mapsto> A'), errno := if e then EINVAL else errno s\<rparr>)
   }"
proof (cases "heap s p")
  case None
  then show ?thesis by (simp add: get_input_def)
next
  case (Some A)
  have s: "s\<lparr>heap := (heap s)(p \<mapsto> A\<lparr>a_input := a_input A\<rparr>), errno := if False then EINVAL else errno s\<rparr> = s"
    using Some by (simp add: fun_upd_idem)
  note loop = get_input_loop[OF Some, where inp = "a_input A" and e = False, unfolded s]
  show ?thesis
    unfolding get_input_def refresh_input_def
    by (simp add: Some Let_def loop) (auto simp: store_def split: option.splits bind_splits)
qed

section \<open>Rounds of a step commute\<close>

lemma refresh_input_frame:
  "refresh_input outs A = Some (A', e) \<Longrightarrow> \<exists>x. A' = A\<lparr>a_input := x\<rparr>"
  by (auto simp: refresh_input_def split: bind_splits if_splits prod.splits)

lemma new_state_and_output_frame:
  "new_state_and_output A = Some A' \<Longrightarrow> \<exists>st out. A' = A\<lparr>a_state := st, a_output := out\<rparr>"
  by (auto simp: new_state_and_output_def Let_def split: bind_splits)

lemma for_each_Cons_bind: "for_each (x # xs) f s = f x s \<bind> for_each xs f"
  by (simp split: option.splits)

lemma outputs_errno [simp]: "outputs (s\<lparr>errno := e\<rparr>) = outputs s"
  by (simp add: outputs_def fun_eq_iff)

lemma outputs_upd_input' [simp]:
  "heap s p = Some A \<Longrightarrow> outputs (s\<lparr>heap := (heap s)(p \<mapsto> A\<lparr>a_input := inp\<rparr>)\<rparr>) = outputs s"
  by (auto simp: outputs_def fun_eq_iff)

lemma get_input_step:
  assumes "heap s p = Some A"
  shows "get_input s (Some p) =
    (case refresh_input (outputs s) A of
       None \<Rightarrow> None
     | Some (A', e) \<Rightarrow>
         Some (s\<lparr>heap := (heap s)(p \<mapsto> A'), errno := if e then EINVAL else errno s\<rparr>))"
  by (simp add: get_input_eq assms split: option.splits)

lemma get_input_None: "heap s p = None \<Longrightarrow> get_input s (Some p) = None"
  by (simp add: get_input_eq)

lemma outputs_after_refresh:
  assumes "heap s p = Some A" and "refresh_input outs A = Some (A', e)"
  shows "outputs (s\<lparr>heap := (heap s)(p \<mapsto> A'), errno := er\<rparr>) = outputs s"
proof -
  from assms(2) obtain x where "A' = A\<lparr>a_input := x\<rparr>"
    using refresh_input_frame by blast
  then show ?thesis using assms(1) by (auto simp: outputs_def fun_eq_iff)
qed

lemma get_input_commute:
  assumes pq: "p \<noteq> q"
  shows "get_input s (Some p) \<bind> (\<lambda>t. get_input t (Some q))
       = get_input s (Some q) \<bind> (\<lambda>t. get_input t (Some p))"
proof -
  have half: "get_input s (Some p) \<bind> (\<lambda>t. get_input t (Some q))
      = (case heap s p of None \<Rightarrow> None | Some A \<Rightarrow>
          (case heap s q of None \<Rightarrow> None | Some B \<Rightarrow>
            (case refresh_input (outputs s) A of None \<Rightarrow> None | Some (A', e1) \<Rightarrow>
              (case refresh_input (outputs s) B of None \<Rightarrow> None | Some (B', e2) \<Rightarrow>
                 Some (s\<lparr>heap := (heap s)(p \<mapsto> A', q \<mapsto> B'),
                         errno := if e1 \<or> e2 then EINVAL else errno s\<rparr>)))))"
    if pq: "p \<noteq> q" for p q
  proof (cases "heap s p")
    case None
    then show ?thesis by (simp add: get_input_None)
  next
    case A: (Some A)
    show ?thesis
    proof (cases "refresh_input (outputs s) A")
      case None
      then show ?thesis using A by (simp add: get_input_step split: option.splits)
    next
      case (Some rA)
      obtain A' e1 where rA: "refresh_input (outputs s) A = Some (A', e1)"
        using Some by (cases rA) auto
      let ?t = "s\<lparr>heap := (heap s)(p \<mapsto> A'), errno := if e1 then EINVAL else errno s\<rparr>"
      have t: "get_input s (Some p) = Some ?t"
        using A rA by (simp add: get_input_step)
      have o: "outputs ?t = outputs s"
        using A rA by (rule outputs_after_refresh)
      have hq: "heap ?t q = heap s q" using pq by simp
      show ?thesis
      proof (cases "heap s q")
        case None
        then show ?thesis using A rA t hq by (simp add: get_input_None)
      next
        case B: (Some B)
        have "get_input ?t (Some q) =
          (case refresh_input (outputs s) B of None \<Rightarrow> None | Some (B', e2) \<Rightarrow>
             Some (?t\<lparr>heap := (heap ?t)(q \<mapsto> B'), errno := if e2 then EINVAL else errno ?t\<rparr>))"
          using get_input_step[of ?t q B] hq B o by simp
        then show ?thesis
          using A B rA t by (auto split: option.splits)
      qed
    qed
  qed
  show ?thesis
    unfolding half[OF pq] half[OF pq[symmetric]]
    by (auto split: option.splits simp: fun_upd_twist[OF pq])
qed


lemma calculate_new_state_commute:
  assumes pq: "p \<noteq> q" and na: "no_alloc_failure s"
  shows "calculate_new_state s (Some p) \<bind> (\<lambda>t. calculate_new_state t (Some q))
       = calculate_new_state s (Some q) \<bind> (\<lambda>t. calculate_new_state t (Some p))"
proof -
  have half: "calculate_new_state s (Some p) \<bind> (\<lambda>t. calculate_new_state t (Some q))
      = (case heap s p of None \<Rightarrow> None | Some A \<Rightarrow>
          (case heap s q of None \<Rightarrow> None | Some B \<Rightarrow>
            (case new_state_and_output A of None \<Rightarrow> None | Some A' \<Rightarrow>
              (case new_state_and_output B of None \<Rightarrow> None | Some B' \<Rightarrow>
                 Some (s\<lparr>allocs := tl (tl (allocs s)), heap := (heap s)(p \<mapsto> A', q \<mapsto> B')\<rparr>)))))"
    if pq: "p \<noteq> q" for p q
  proof (cases "heap s p")
    case None
    then show ?thesis using na by (simp add: calculate_new_state_no_failure)
  next
    case A: (Some A)
    show ?thesis
    proof (cases "new_state_and_output A")
      case None
      then show ?thesis using A na
        by (simp add: calculate_new_state_no_failure split: option.splits)
    next
      case A': (Some A')
      let ?t = "s\<lparr>allocs := tl (allocs s), heap := (heap s)(p \<mapsto> A')\<rparr>"
      have t: "calculate_new_state s (Some p) = Some ?t"
        using A A' na by (simp add: calculate_new_state_no_failure)
      have nt: "no_alloc_failure ?t"
        using na by (cases "allocs s") (auto simp: no_alloc_failure_def)
      have hq: "heap ?t q = heap s q" using pq by simp
      show ?thesis
        using calculate_new_state_no_failure[OF nt, of q] A A' t hq
        by (auto split: option.splits bind_splits)
    qed
  qed
  show ?thesis
    unfolding half[OF pq] half[OF pq[symmetric]]
    by (auto split: option.splits simp: fun_upd_twist[OF pq])
qed

lemma no_alloc_failure_calculate_new_state:
  "no_alloc_failure s \<Longrightarrow> calculate_new_state s a = Some s' \<Longrightarrow> no_alloc_failure s'"
proof (cases a)
  case None
  then show "calculate_new_state s a = Some s' \<Longrightarrow> no_alloc_failure s \<Longrightarrow> no_alloc_failure s'"
    by (auto simp: calculate_new_state_def)
next
  case (Some p)
  show "no_alloc_failure s \<Longrightarrow> calculate_new_state s a = Some s' \<Longrightarrow> no_alloc_failure s'"
    unfolding Some
    by (cases "allocs s") (auto simp: calculate_new_state_no_failure no_alloc_failure_def split: bind_splits)
qed

text \<open>Reordering a loop whose rounds commute.\<close>

lemma for_each_move_front:
  assumes inv: "\<And>y t t'. I t \<Longrightarrow> f y t = Some t' \<Longrightarrow> I t'"
    and comm: "\<And>y t. I t \<Longrightarrow> y \<in> set ys \<Longrightarrow> y \<noteq> x \<Longrightarrow> f y t \<bind> f x = f x t \<bind> f y"
  shows "x \<in> set ys \<Longrightarrow> I s \<Longrightarrow> for_each ys f s = for_each (x # remove1 x ys) f s"
  using comm
proof (induction ys arbitrary: s)
  case Nil
  then show ?case by simp
next
  case (Cons y ys)
  show ?case
  proof (cases "y = x")
    case True
    then show ?thesis by simp
  next
    case False
    then have xin: "x \<in> set ys" using Cons.prems(1) by simp
    have IH: "for_each ys f t = for_each (x # remove1 x ys) f t" if "I t" for t
      using Cons.IH[OF xin that] Cons.prems(3) by simp
    have "for_each (y # ys) f s = f y s \<bind> for_each ys f"
      by (rule for_each_Cons_bind)
    also have "\<dots> = f y s \<bind> (\<lambda>t. for_each (x # remove1 x ys) f t)"
    proof (cases "f y s")
      case None
      then show ?thesis by simp
    next
      case (Some t)
      then have "I t" using inv Cons.prems(2) by blast
      then show ?thesis using Some IH by simp
    qed
    also have "\<dots> = (f y s \<bind> f x) \<bind> for_each (remove1 x ys) f"
      by (simp add: for_each_Cons_bind[abs_def] del: for_each.simps)
    also have "\<dots> = (f x s \<bind> f y) \<bind> for_each (remove1 x ys) f"
      using Cons.prems(3)[of s y] Cons.prems(2) False by simp
    also have "\<dots> = for_each (x # y # remove1 x ys) f s"
      by (simp add: for_each_Cons_bind[abs_def] del: for_each.simps)
    finally show ?thesis using False by simp
  qed
qed

lemma for_each_permute:
  assumes inv: "\<And>y t t'. I t \<Longrightarrow> f y t = Some t' \<Longrightarrow> I t'"
    and comm: "\<And>x y t. I t \<Longrightarrow> x \<in> set xs \<Longrightarrow> y \<in> set xs \<Longrightarrow> x \<noteq> y \<Longrightarrow> f y t \<bind> f x = f x t \<bind> f y"
  shows "mset ys = mset xs \<Longrightarrow> I s \<Longrightarrow> for_each ys f s = for_each xs f s"
  using comm
proof (induction xs arbitrary: ys s)
  case Nil
  then show ?case by simp
next
  case (Cons x xs)
  have xin: "x \<in> set ys"
    using Cons.prems(1) by (metis list.set_intros(1) set_mset_mset)
  have sets: "set ys = set (x # xs)"
    using Cons.prems(1) by (metis set_mset_mset)
  have front: "for_each ys f s = for_each (x # remove1 x ys) f s"
    using inv _ xin Cons.prems(2)
  proof (rule for_each_move_front)
    fix y t assume "I t" "y \<in> set ys" "y \<noteq> x"
    then show "f y t \<bind> f x = f x t \<bind> f y"
      using Cons.prems(3)[of t x y] sets by auto
  qed
  have rest: "mset (remove1 x ys) = mset xs"
    using Cons.prems(1) by (metis add_mset_remove_trivial mset.simps(2) mset_remove1)
  show ?case
  proof (cases "f x s")
    case None
    then show ?thesis using front by simp
  next
    case (Some t)
    then have "I t" using inv Cons.prems(2) by blast
    then have "for_each (remove1 x ys) f t = for_each xs f t"
      using Cons.IH[OF rest] Cons.prems(3) by simp
    then show ?thesis using front Some by simp
  qed
qed


lemma for_each_indexed:
  assumes "unat num \<le> length arr"
  shows "for_each (size_t_range num) (\<lambda>i s. nth_opt arr (unat i) \<bind> f s) s
       = for_each (take (unat num) arr) (\<lambda>a s. f s a) s"
proof -
  have "for_each (size_t_range num) (\<lambda>i s. nth_opt arr (unat i) \<bind> f s) s
      = for_each [0..<unat num] (\<lambda>k s. nth_opt arr (unat (word_of_nat k :: size_t)) \<bind> f s) s"
    by (rule for_each_size_t_range)
  also have "\<dots> = for_each [0..<unat num] (\<lambda>k s. f s (arr ! k)) s"
    using assms by (intro for_each_cong) (simp add: unat_index nth_opt_def)
  also have "\<dots> = for_each (map ((!) arr) [0..<unat num]) (\<lambda>a s. f s a) s"
    by (simp add: for_each_map)
  also have "map ((!) arr) [0..<unat num] = take (unat num) arr"
    using assms by (intro nth_equalityI) auto
  finally show ?thesis .
qed

lemma null_in_the_array_loop_eq:
  "\<forall>i\<in>set js. unat i < length arr \<Longrightarrow>
    null_in_the_array_loop arr js = Some (\<exists>i\<in>set js. arr ! unat i = None)"
  by (induction js) (auto simp: nth_opt_def)

lemma null_in_the_array_eq:
  assumes "unat num \<le> length arr"
  shows "null_in_the_array arr num = Some (None \<in> set (take (unat num) arr))"
proof -
  have r: "\<forall>i\<in>set (size_t_range num). unat i < length arr"
    using assms by (auto simp: size_t_range_def unat_index)
  have "(\<exists>i\<in>set (size_t_range num). arr ! unat i = None) \<longleftrightarrow> (\<exists>k<unat num. arr ! k = None)"
    by (auto simp: size_t_range_def unat_index)
  also have "\<dots> \<longleftrightarrow> None \<in> set (take (unat num) arr)"
    using assms by (auto simp: in_set_conv_nth) 
  finally show ?thesis
    unfolding null_in_the_array_def using null_in_the_array_loop_eq[OF r] by simp
qed

lemma ma_step_eq:
  assumes "unat num = length arr"
  shows "ma_step s (Some arr) num =
     (if num = 0 \<or> None \<in> set arr then einval s
      else do {
        s1 \<leftarrow> for_each arr (\<lambda>a s. get_input s a) s;
        s2 \<leftarrow> for_each arr (\<lambda>a s. calculate_new_state s a) s1;
        Some (0, s2)
      })"
  using assms by (simp add: ma_step_def null_in_the_array_eq for_each_indexed)

lemma allocs_get_input: "get_input s a = Some s' \<Longrightarrow> allocs s' = allocs s"
proof (cases a)
  case None
  then show "get_input s a = Some s' \<Longrightarrow> allocs s' = allocs s"
    by (auto simp: get_input_def)
next
  case (Some p)
  show "get_input s a = Some s' \<Longrightarrow> allocs s' = allocs s"
    unfolding Some by (auto simp: get_input_eq split: bind_splits)
qed

lemma no_alloc_failure_get_input:
  "no_alloc_failure s \<Longrightarrow> get_input s a = Some s' \<Longrightarrow> no_alloc_failure s'"
  by (simp add: no_alloc_failure_def allocs_get_input)

section \<open>What a step does to one automaton\<close>

lemma get_input_frame:
  assumes "get_input t a = Some t'" and "heap t p = Some A"
  shows "\<exists>x. heap t' p = Some (A\<lparr>a_input := x\<rparr>)"
proof (cases a)
  case None
  then show ?thesis using assms by (auto simp: get_input_def intro: exI[of _ "a_input A"])
next
  case (Some q)
  show ?thesis
  proof (cases "q = p")
    case True
    then show ?thesis using assms Some
      by (auto simp: get_input_eq split: bind_splits dest!: refresh_input_frame)
  next
    case False
    then show ?thesis using assms Some
      by (auto simp: get_input_eq split: bind_splits intro: exI[of _ "a_input A"])
  qed
qed

lemma phase2_frame:
  assumes "for_each arr (\<lambda>a s. get_input s a) s = Some s1" and "heap s p = Some A"
  shows "\<exists>x. heap s1 p = Some (A\<lparr>a_input := x\<rparr>)"
proof -
  have "\<exists>x. heap s p = Some (A\<lparr>a_input := x\<rparr>)"
    using assms(2) by (intro exI[of _ "a_input A"]) simp
  with assms(1) show ?thesis
  proof (rule for_each_invariant)
    fix a t t'
    assume "\<exists>x. heap t p = Some (A\<lparr>a_input := x\<rparr>)" and "get_input t a = Some t'"
    then show "\<exists>x. heap t' p = Some (A\<lparr>a_input := x\<rparr>)"
      using get_input_frame by fastforce
  qed
qed

lemma phase3_count:
  assumes "for_each arr (\<lambda>a s. calculate_new_state s a) t = Some t'"
    and "None \<notin> set arr" and "no_alloc_failure t"
  shows "heap t' p = ((\<lambda>X. X \<bind> new_state_and_output) ^^ count_list arr (Some p)) (heap t p)"
  using assms
proof (induction arr arbitrary: t)
  case Nil
  then show ?case by simp
next
  case (Cons a arr)
  from Cons.prems(2) obtain q where a: "a = Some q" by (cases a) auto
  from Cons.prems(1) obtain t1 where t1: "calculate_new_state t (Some q) = Some t1"
    and rest: "for_each arr (\<lambda>a s. calculate_new_state s a) t1 = Some t'"
    by (auto simp: a split: option.splits)
  have na1: "no_alloc_failure t1"
    using Cons.prems(3) t1 by (rule no_alloc_failure_calculate_new_state)
  have h1: "heap t1 p = (if p = q then heap t p \<bind> new_state_and_output else heap t p)"
    using t1 Cons.prems(3) by (auto simp: calculate_new_state_no_failure split: bind_splits)
  have "heap t' p = ((\<lambda>X. X \<bind> new_state_and_output) ^^ count_list arr (Some p)) (heap t1 p)"
    using Cons.IH[OF rest _ na1] Cons.prems(2) by simp
  moreover have "((\<lambda>X. X \<bind> new_state_and_output) ^^ n) (X \<bind> new_state_and_output)
      = ((\<lambda>X. X \<bind> new_state_and_output) ^^ n) X \<bind> new_state_and_output" for n X
    by (rule funpow_swap1[of "\<lambda>X. X \<bind> new_state_and_output", symmetric])
  ultimately show ?case
    by (simp add: a h1)
qed

text \<open>
  The loop of input refreshes: the output buffers stay as they are, and an automaton
  listed \<open>k\<close> times is refreshed \<open>k\<close> times against them.
\<close>

lemma phase2_count:
  assumes "for_each arr (\<lambda>a s. get_input s a) t = Some t'"
  shows "outputs t' = outputs t \<and> heap t' p = (refreshed t ^^ count_list arr (Some p)) (heap t p)"
  using assms
proof (induction arr arbitrary: t)
  case Nil
  then show ?case by simp
next
  case (Cons a arr)
  from Cons.prems obtain t1 where t1: "get_input t a = Some t1"
    and rest: "for_each arr (\<lambda>a s. get_input s a) t1 = Some t'"
    by (auto split: option.splits)
  have o1: "outputs t1 = outputs t"
    and h1: "heap t1 p = (if a = Some p then refreshed t (heap t p) else heap t p)"
  proof -
    show "outputs t1 = outputs t"
    proof (cases a)
      case None
      then show ?thesis using t1 by (auto simp: get_input_def)
    next
      case (Some q)
      with t1 obtain B B' e where B: "heap t q = Some B"
        and rf: "refresh_input (outputs t) B = Some (B', e)"
        and t1': "t1 = t\<lparr>heap := (heap t)(q \<mapsto> B'), errno := if e then EINVAL else errno t\<rparr>"
        by (auto simp: get_input_eq split: bind_splits)
      show ?thesis unfolding t1' using B rf by (rule outputs_after_refresh)
    qed
    show "heap t1 p = (if a = Some p then refreshed t (heap t p) else heap t p)"
    proof (cases a)
      case None
      then show ?thesis using t1 by (auto simp: get_input_def)
    next
      case (Some q)
      then show ?thesis using t1
        by (auto simp: get_input_eq refreshed_def split: bind_splits)
    qed
  qed
  have r1: "refreshed t1 = refreshed t"
    by (simp add: refreshed_def fun_eq_iff o1)
  have sw: "(refreshed t ^^ n) (refreshed t X) = refreshed t ((refreshed t ^^ n) X)" for n X
    by (rule funpow_swap1[of "refreshed t", symmetric])
  from Cons.IH[OF rest] have "outputs t' = outputs t1"
    and "heap t' p = (refreshed t1 ^^ count_list arr (Some p)) (heap t1 p)" by simp_all
  then show ?case
    by (simp add: o1 r1 h1 sw)
qed

lemma phase3_count_transitioned:
  assumes "for_each arr (\<lambda>a s. calculate_new_state s a) t = Some t'"
    and "None \<notin> set arr" and "no_alloc_failure t"
  shows "heap t' p = (transitioned ^^ count_list arr (Some p)) (heap t p)"
proof -
  have "transitioned = (\<lambda>X. X \<bind> new_state_and_output)"
    by (simp add: transitioned_def fun_eq_iff)
  then show ?thesis using phase3_count[OF assms] by simp
qed

lemma create_bit_mask_eq: "create_bit_mask x = mask (unat x)"
  by (simp add: create_bit_mask_def mask_eq_exp_minus_1)

lemma test_bit_and_block:
  assumes "and_block arr (n div 64) (create_bit_mask (n mod 64)) = Some arr'"
    and "i < unat n"
  shows "test_bit arr' i = test_bit arr i \<and> length arr' = length arr"
proof -
  from assms(1) have lt: "unat n div 64 < length arr"
    and arr': "arr' = arr[unat n div 64 := arr ! (unat n div 64) AND mask (unat n mod 64)]"
    by (auto simp: and_block_def nth_opt_def create_bit_mask_eq split: if_splits)
  show ?thesis
  proof (cases "i div 64 = unat n div 64")
    case True
    then have "i mod 64 < unat n mod 64"
      using assms(2) by (metis div_mult_mod_eq nat_add_left_cancel_less)
    then show ?thesis using True lt
      by (simp add: arr' test_bit_def bit_simps)
  next
    case False
    then show ?thesis by (simp add: arr' test_bit_def)
  qed
qed

lemma for_each_upt_invariant:
  assumes "for_each [0..<n] f s = Some s'" and "I 0 s"
    and "\<And>k t t'. k < n \<Longrightarrow> I k t \<Longrightarrow> f k t = Some t' \<Longrightarrow> I (Suc k) t'"
  shows "I n s'"
  using assms(1,3)
proof (induction n arbitrary: s')
  case 0
  then show ?case using assms(2) by simp
next
  case (Suc n)
  from Suc.prems(1) obtain t where t: "for_each [0..<n] f s = Some t" and t': "f n t = Some s'"
    by (auto simp: for_each_append split: option.splits)
  have "I n t" using Suc.IH[OF t] Suc.prems(2) by simp
  then show ?case using Suc.prems(2)[of n t s'] t' by simp
qed

lemma refresh_input_bit:
  assumes r: "refresh_input outs A = Some (A', e)"
    and inp: "a_input A = Some inp"
    and i: "i < unat (input_signals_num A)"
    and link: "incoming_connections A ! i = Some (Incoming (Some q) j)"
    and out: "outs q = Some out"
  shows "\<exists>inp'. A' = A\<lparr>a_input := Some inp'\<rparr> \<and> test_bit inp' i = test_bit out (unat j)"
proof -
  let ?n = "input_signals_num A"
  let ?I = "\<lambda>k (acc :: bits option \<times> bool). \<exists>arr. fst acc = Some arr \<and> (i < k \<longrightarrow> test_bit arr i = test_bit out (unat j))"
  from r obtain inp1 e1 where loop: "for_each (size_t_range ?n)
      (refresh_bit outs (incoming_connections A)) (a_input A, False) = Some (inp1, e1)"
    and fin: "(if ?n mod 64 \<noteq> 0 then do {
       arr \<leftarrow> inp1;
       arr' \<leftarrow> and_block arr (?n div 64) (create_bit_mask (?n mod 64));
       Some (A\<lparr>a_input := Some arr'\<rparr>, e1)
     } else Some (A\<lparr>a_input := inp1\<rparr>, e1)) = Some (A', e)"
    by (auto simp: refresh_input_def split: bind_splits)
  have "?I (unat ?n) (inp1, e1)"
    using loop[unfolded for_each_size_t_range]
  proof (rule for_each_upt_invariant)
    show "?I 0 (a_input A, False)" using inp by simp
  next
    fix k t t'
    assume k: "k < unat ?n" and I: "?I k t"
      and step: "refresh_bit outs (incoming_connections A) (word_of_nat k) t = Some t'"
    from I obtain arr where arr: "fst t = Some arr" and b: "i < k \<longrightarrow> test_bit arr i = test_bit out (unat j)"
      by blast
    have uk: "unat (word_of_nat k :: size_t) = k" using k by (rule unat_index)
    show "?I (Suc k) t'"
    proof (cases "k = i")
      case True
      have ui: "unat (word_of_nat i :: size_t) = i" using uk True by simp
      show ?thesis using step arr link out unfolding True
        by (auto simp: refresh_bit_def ui nth_opt_def test_bit_write_bit split: if_splits)
    next
      case False
      have "i < k \<Longrightarrow> i div 64 \<le> k div 64" by (simp add: div_le_mono)
      then show ?thesis using step arr b False
        by (auto simp: refresh_bit_def uk nth_opt_def test_bit_write_bit less_Suc_eq
              split: if_splits option.splits)
    qed
  qed
  then obtain arr where arr: "inp1 = Some arr" and b: "test_bit arr i = test_bit out (unat j)"
    using i by auto
  show ?thesis
  proof (cases "?n mod 64 = 0")
    case True
    then show ?thesis using fin arr b by auto
  next
    case False
    then obtain arr' where "and_block arr (?n div 64) (create_bit_mask (?n mod 64)) = Some arr'"
      and "A' = A\<lparr>a_input := Some arr'\<rparr>"
      using fin arr by (auto split: bind_splits)
    then show ?thesis using test_bit_and_block[OF _ i] b by auto
  qed
qed

lemma refresh_input_keeps_buffer:
  assumes r: "refresh_input outs A = Some (A', e)" and inp: "a_input A = Some inp"
  shows "\<exists>inp'. A' = A\<lparr>a_input := Some inp'\<rparr>"
proof -
  let ?n = "input_signals_num A"
  from r obtain inp1 e1 where loop: "for_each (size_t_range ?n)
      (refresh_bit outs (incoming_connections A)) (a_input A, False) = Some (inp1, e1)"
    and fin: "(if ?n mod 64 \<noteq> 0 then do {
       arr \<leftarrow> inp1;
       arr' \<leftarrow> and_block arr (?n div 64) (create_bit_mask (?n mod 64));
       Some (A\<lparr>a_input := Some arr'\<rparr>, e1)
     } else Some (A\<lparr>a_input := inp1\<rparr>, e1)) = Some (A', e)"
    by (auto simp: refresh_input_def split: bind_splits)
  have "\<exists>arr. fst (inp1, e1) = Some arr"
    using loop
  proof (rule for_each_invariant)
    show "\<exists>arr. fst (a_input A, False) = Some arr" using inp by simp
  next
    fix x t t'
    assume "\<exists>arr. fst t = Some arr" "refresh_bit outs (incoming_connections A) x t = Some t'"
    then show "\<exists>arr. fst t' = Some arr"
      by (auto simp: refresh_bit_def split: if_splits option.splits)
  qed
  then show ?thesis using fin by (auto split: if_splits bind_splits)
qed


lemma calculate_new_state_frame:
  assumes "calculate_new_state t a = Some t'" and "heap t p = Some X"
  shows "\<exists>st out. heap t' p = Some (X\<lparr>a_state := st, a_output := out\<rparr>)"
proof -
  have same: "\<exists>st out. heap t p = Some (X\<lparr>a_state := st, a_output := out\<rparr>)"
    using assms(2) by (intro exI[of _ "a_state X"] exI[of _ "a_output X"]) simp
  show ?thesis
  proof (cases a)
    case None
    then have "heap t' = heap t" using assms(1) by (auto simp: calculate_new_state_def)
    then show ?thesis using same by simp
  next
    case (Some q)
    obtain Y where Y: "heap t q = Some Y"
      using assms(1) Some by (auto simp: calculate_new_state_eq split: option.splits)
    obtain ok t1 where c: "calloc t ((state_signals_num Y + 63) div 64) 8 = (ok, t1)"
      by (cases "calloc t ((state_signals_num Y + 63) div 64) 8")
    have h1: "heap t1 = heap t" using calloc_frame[OF c] by simp
    show ?thesis
    proof (cases ok)
      case False
      then have "heap t' = heap t" using assms(1) Some Y c h1
        by (auto simp: calculate_new_state_eq)
      then show ?thesis using same by simp
    next
      case True
      then obtain Y' where Y': "new_state_and_output Y = Some Y'" and t': "t' = store t1 q Y'"
        using assms(1) Some Y c by (auto simp: calculate_new_state_eq split: bind_splits)
      show ?thesis
      proof (cases "q = p")
        case True
        then show ?thesis using new_state_and_output_frame[OF Y'] Y assms(2) t' by auto
      next
        case False
        then have "heap t' p = heap t p" using t' h1 by simp
        then show ?thesis using same by simp
      qed
    qed
  qed
qed

lemma phase3_frame:
  assumes "for_each arr (\<lambda>a s. calculate_new_state s a) t = Some t'" and "heap t p = Some X"
  shows "\<exists>st out. heap t' p = Some (X\<lparr>a_state := st, a_output := out\<rparr>)"
proof -
  have "\<exists>st out. heap t p = Some (X\<lparr>a_state := st, a_output := out\<rparr>)"
    using assms(2) by (intro exI[of _ "a_state X"] exI[of _ "a_output X"]) simp
  with assms(1) show ?thesis
  proof (rule for_each_invariant)
    fix a u u'
    assume "\<exists>st out. heap u p = Some (X\<lparr>a_state := st, a_output := out\<rparr>)"
      and "calculate_new_state u a = Some u'"
    then show "\<exists>st out. heap u' p = Some (X\<lparr>a_state := st, a_output := out\<rparr>)"
      using calculate_new_state_frame by fastforce
  qed
qed

lemma for_each_establish:
  assumes "for_each xs f s = Some s'" and "R s" and "x \<in> set xs \<or> Q s"
    and pres: "\<And>y t t'. R t \<Longrightarrow> f y t = Some t' \<Longrightarrow> R t'"
    and est: "\<And>t t'. R t \<Longrightarrow> f x t = Some t' \<Longrightarrow> Q t'"
    and keep: "\<And>y t t'. y \<noteq> x \<Longrightarrow> R t \<Longrightarrow> Q t \<Longrightarrow> f y t = Some t' \<Longrightarrow> Q t'"
  shows "Q s'"
  using assms(1,2,3)
proof (induction xs arbitrary: s)
  case Nil
  then show ?case by simp
next
  case (Cons y xs)
  from Cons.prems(1) obtain t where t: "f y s = Some t" and rest: "for_each xs f t = Some s'"
    by (auto split: option.splits)
  have Rt: "R t" using pres Cons.prems(2) t by blast
  have "x \<in> set xs \<or> Q t"
  proof (cases "y = x")
    case True
    then show ?thesis using est Cons.prems(2) t by blast
  next
    case False
    then show ?thesis using keep Cons.prems(2,3) t by auto
  qed
  then show ?case using Cons.IH[OF rest Rt] by simp
qed

lemma step_reads_outputs_before_step:
  assumes len: "unat num = length arr"
    and step: "ma_step s (Some arr) num = Some (0, s')"
    and listed: "Some p \<in> set arr"
    and A: "heap s p = Some A"
    and inp: "a_input A = Some inp"
    and i: "i < unat (input_signals_num A)"
    and link: "incoming_connections A ! i = Some (Incoming (Some q) j)"
    and B: "heap s q = Some B"
  shows "\<exists>A' inp'. heap s' p = Some A' \<and> a_input A' = Some inp'
           \<and> test_bit inp' i = test_bit (a_output B) (unat j)"
proof -
  let ?R = "\<lambda>t. outputs t = outputs s \<and> (\<exists>x. heap t p = Some (A\<lparr>a_input := Some x\<rparr>))"
  let ?Q = "\<lambda>t. \<exists>x. heap t p = Some (A\<lparr>a_input := Some x\<rparr>)
              \<and> test_bit x i = test_bit (a_output B) (unat j)"
  from step obtain s1 where s1: "for_each arr (\<lambda>a s. get_input s a) s = Some s1"
    and s': "for_each arr (\<lambda>a s. calculate_new_state s a) s1 = Some s'"
    by (auto simp: ma_step_eq[OF len] einval_def split: bind_splits if_splits)
  have R0: "?R s" using A inp by (auto intro: exI[of _ inp])
  have "?Q s1"
    using s1 R0
  proof (rule for_each_establish[where x = "Some p" and Q = ?Q and R = ?R and f = "\<lambda>a s. get_input s a"])
    show "Some p \<in> set arr \<or> ?Q s" using listed by simp
  next
    fix y t t'
    assume R: "?R t" and g: "get_input t y = Some t'"
    then obtain x where x: "heap t p = Some (A\<lparr>a_input := Some x\<rparr>)" by blast
    show "?R t'"
    proof (cases y)
      case None
      then show ?thesis using R g by (auto simp: get_input_def)
    next
      case (Some p')
      from g Some obtain X X' e where X: "heap t p' = Some X"
        and r: "refresh_input (outputs t) X = Some (X', e)"
        and t': "t' = t\<lparr>heap := (heap t)(p' \<mapsto> X'), errno := if e then EINVAL else errno t\<rparr>"
        by (auto simp: get_input_eq split: bind_splits)
      have o: "outputs t' = outputs t"
        unfolding t' using X r by (rule outputs_after_refresh)
      show ?thesis
      proof (cases "p' = p")
        case True
        then obtain x' where "X' = A\<lparr>a_input := Some x'\<rparr>"
          using refresh_input_keeps_buffer[OF r, of x] X x by auto
        then show ?thesis using o R True t' by auto
      next
        case False
        then show ?thesis using o R t' x by auto
      qed
    qed
  next
    fix t t'
    assume R: "?R t" and g: "get_input t (Some p) = Some t'"
    then obtain x where x: "heap t p = Some (A\<lparr>a_input := Some x\<rparr>)" by blast
    from g x obtain X' e where r: "refresh_input (outputs t) (A\<lparr>a_input := Some x\<rparr>) = Some (X', e)"
      and t': "t' = t\<lparr>heap := (heap t)(p \<mapsto> X'), errno := if e then EINVAL else errno t\<rparr>"
      by (auto simp: get_input_eq split: bind_splits)
    have oq: "outputs t q = Some (a_output B)"
      using R B by (simp add: outputs_def)
    from refresh_input_bit[OF r _ _ _ oq, of x i j] i link
    obtain inp' where "X' = A\<lparr>a_input := Some inp'\<rparr>" "test_bit inp' i = test_bit (a_output B) (unat j)"
      by auto
    then show "?Q t'" using t' by auto
  next
    fix y t t'
    assume ne: "y \<noteq> Some p" and Q: "?Q t" and g: "get_input t y = Some t'"
    show "?Q t'"
    proof (cases y)
      case None
      then show ?thesis using Q g by (auto simp: get_input_def)
    next
      case (Some p')
      then have "heap t' p = heap t p"
        using g ne by (auto simp: get_input_eq split: bind_splits)
      then show ?thesis using Q by simp
    qed
  qed
  then obtain x where x: "heap s1 p = Some (A\<lparr>a_input := Some x\<rparr>)"
    and b: "test_bit x i = test_bit (a_output B) (unat j)"
    by blast
  from phase3_frame[OF s' x] b show ?thesis by auto
qed

section \<open>Uniqueness of outgoing entries through every call\<close>

lemma outgoing_unique_same_links:
  assumes "outgoing_unique t"
    and "\<And>p X'. heap t' p = Some X' \<Longrightarrow>
          \<exists>X. heap t p = Some X \<and> outgoing_connections X' = outgoing_connections X"
  shows "outgoing_unique t'"
  unfolding outgoing_unique_def
proof (intro allI impI)
  fix p X' assume "heap t' p = Some X'"
  then obtain X where "heap t p = Some X" "outgoing_connections X' = outgoing_connections X"
    using assms(2) by blast
  then show "\<forall>l\<in>set (outgoing_connections X'). distinct l"
    using assms(1) by (auto simp: outgoing_unique_def)
qed

lemma get_input_dom:
  assumes "get_input t a = Some t'" and "heap t p = None"
  shows "heap t' p = None"
proof (cases a)
  case None
  then show ?thesis using assms by (auto simp: get_input_def)
next
  case (Some q)
  show ?thesis using assms unfolding Some
    by (auto simp: get_input_eq split: bind_splits if_splits)
qed

lemma calculate_new_state_dom:
  assumes "calculate_new_state t a = Some t'" and "heap t p = None"
  shows "heap t' p = None"
proof (cases a)
  case None
  then show ?thesis using assms by (auto simp: calculate_new_state_def)
next
  case (Some q)
  obtain Y where Y: "heap t q = Some Y"
    using assms(1) Some by (auto simp: calculate_new_state_eq split: option.splits)
  obtain ok t1 where c: "calloc t ((state_signals_num Y + 63) div 64) 8 = (ok, t1)"
    by (cases "calloc t ((state_signals_num Y + 63) div 64) 8")
  have h1: "heap t1 = heap t" using calloc_frame[OF c] by simp
  show ?thesis using assms Y c h1 unfolding Some
    by (auto simp: calculate_new_state_eq split: bind_splits if_splits)
qed

lemma outgoing_unique_get_input:
  assumes "outgoing_unique s" and "get_input s a = Some s'"
  shows "outgoing_unique s'"
  using assms(1)
proof (rule outgoing_unique_same_links)
  fix p X' assume X': "heap s' p = Some X'"
  show "\<exists>X. heap s p = Some X \<and> outgoing_connections X' = outgoing_connections X"
  proof (cases "heap s p")
    case None
    then show ?thesis using get_input_dom[OF assms(2)] X' by simp
  next
    case (Some X)
    from get_input_frame[OF assms(2) Some] X' show ?thesis using Some by auto
  qed
qed

lemma outgoing_unique_calculate_new_state:
  assumes "outgoing_unique s" and "calculate_new_state s a = Some s'"
  shows "outgoing_unique s'"
  using assms(1)
proof (rule outgoing_unique_same_links)
  fix p X' assume X': "heap s' p = Some X'"
  show "\<exists>X. heap s p = Some X \<and> outgoing_connections X' = outgoing_connections X"
  proof (cases "heap s p")
    case None
    then show ?thesis using calculate_new_state_dom[OF assms(2)] X' by simp
  next
    case (Some X)
    from calculate_new_state_frame[OF assms(2) Some] X' show ?thesis using Some by auto
  qed
qed

lemma outgoing_unique_ma_step:
  assumes "outgoing_unique s" and "ma_step s at num = Some (r, s')"
  shows "outgoing_unique s'"
proof (cases "r = 0")
  case False
  then show ?thesis using assms
    by (auto simp: ma_step_def einval_def split: option.splits bind_splits if_splits)
next
  case True
  with assms(2) obtain arr s1 where
    s1: "for_each (size_t_range num) (\<lambda>i s. nth_opt arr (unat i) \<bind> get_input s) s = Some s1"
    and s': "for_each (size_t_range num) (\<lambda>i s. nth_opt arr (unat i) \<bind> calculate_new_state s) s1 = Some s'"
    by (auto simp: ma_step_def einval_def split: option.splits bind_splits if_splits)
  have "outgoing_unique s1"
    using s1 assms(1)
    by (rule outgoing_unique_for_each) (auto split: bind_splits dest: outgoing_unique_get_input)
  with s' show ?thesis
    by (rule outgoing_unique_for_each) (auto split: bind_splits dest: outgoing_unique_calculate_new_state)
qed

lemma outgoing_unique_ma_set_state:
  assumes "outgoing_unique s" and "ma_set_state s a st = Some (r, s')"
  shows "outgoing_unique s'"
  using assms
  by (auto simp: ma_set_state_def einval_def Let_def split: option.splits bind_splits
        intro!: outgoing_unique_store intro: outgoing_unique_member)

lemma outgoing_unique_ma_set_input:
  assumes "outgoing_unique s" and "ma_set_input s a inp = Some (r, s')"
  shows "outgoing_unique s'"
  using assms(2)
  apply (auto simp: ma_set_input_def einval_def Let_def assms(1) split: option.splits bind_splits if_splits)
  apply (erule outgoing_unique_for_each)
   apply (rule assms(1))
  apply (erule outgoing_unique_same_links)
  apply (auto split: bind_splits if_splits dest!: get_bit_frame set_bit_c_frame)
  done


lemma allocate_automaton_frame:
  "allocate_automaton s a n m st = (r, s') \<Longrightarrow> heap s' = heap s"
  unfolding allocate_automaton_def Let_def
  by (auto split: if_splits prod.splits dest!: calloc_frame)

lemma outgoing_unique_ma_create_simple:
  assumes "outgoing_unique s" and "ma_create_simple s n m t = Some (r, s')"
  shows "outgoing_unique s'"
proof -
  obtain ok s1 where m1: "malloc s = (ok, s1)" by (cases "malloc s")
  obtain r2 s2 where i2: "initialize_automaton s1 n m m t (Some identity_function) = (r2, s2)"
    by (cases "initialize_automaton s1 n m m t (Some identity_function)")
  have h2: "heap s2 = heap s"
    using malloc_frame[OF m1] initialize_automaton_frame[OF i2] by simp
  have u1: "outgoing_unique s1" "outgoing_unique s2"
    using assms(1) malloc_frame[OF m1] h2 by (simp_all add: outgoing_unique_def)
  show ?thesis
  proof (cases r2)
    case None
    then show ?thesis using assms(2) m1 i2 u1
      by (auto simp: ma_create_simple_def split: if_splits)
  next
    case (Some a0)
    obtain r3 s3 where a3: "allocate_automaton s2 a0 n m m = (r3, s3)"
      by (cases "allocate_automaton s2 a0 n m m")
    have u3: "outgoing_unique s3"
      using u1 allocate_automaton_frame[OF a3] by (simp add: outgoing_unique_def)
    show ?thesis
    proof (cases r3)
      case None
      then show ?thesis using assms(2) m1 i2 Some a3 u1 u3
        by (auto simp: ma_create_simple_def split: if_splits)
    next
      case a1: (Some a1)
      have "outgoing_connections a1 = replicate (unat m) []"
        using allocate_automaton_Some[OF a3[unfolded a1]] by simp
      then show ?thesis using assms(2) m1 i2 Some a3 a1 u1 u3
        by (auto simp: ma_create_simple_def Let_def split: if_splits intro!: outgoing_unique_store)
    qed
  qed
qed

lemma outgoing_unique_ma_create_full:
  assumes "outgoing_unique s" and "ma_create_full s n m st t y q = Some (r, s')"
  shows "outgoing_unique s'"
proof -
  obtain ok s1 where m1: "malloc s = (ok, s1)" by (cases "malloc s")
  obtain r2 s2 where i2: "initialize_automaton s1 n m st t y = (r2, s2)"
    by (cases "initialize_automaton s1 n m st t y")
  have h2: "heap s2 = heap s"
    using malloc_frame[OF m1] initialize_automaton_frame[OF i2] by simp
  have u1: "outgoing_unique s1" "outgoing_unique s2"
    using assms(1) malloc_frame[OF m1] h2 by (simp_all add: outgoing_unique_def)
  show ?thesis
  proof (cases r2)
    case None
    then show ?thesis using assms(2) m1 i2 u1
      by (auto simp: ma_create_full_def split: if_splits)
  next
    case (Some a0)
    obtain r3 s3 where a3: "allocate_automaton s2 a0 n m st = (r3, s3)"
      by (cases "allocate_automaton s2 a0 n m st")
    have u3: "outgoing_unique s3"
      using u1 allocate_automaton_frame[OF a3] by (simp add: outgoing_unique_def)
    show ?thesis
    proof (cases r3)
      case None
      then show ?thesis using assms(2) m1 i2 Some a3 u1 u3
        by (auto simp: ma_create_full_def split: if_splits)
    next
      case a1: (Some a1)
      have "outgoing_connections a1 = replicate (unat m) []"
        using allocate_automaton_Some[OF a3[unfolded a1]] by simp
      then have u4: "outgoing_unique (store (s3\<lparr>next_addr := Suc (next_addr s3)\<rparr>) (next_addr s3) a1)"
        using u3 by (auto intro!: outgoing_unique_store)
      show ?thesis using assms(2) m1 i2 Some a3 a1 u4 u1
        by (auto simp: ma_create_full_def Let_def split: if_splits bind_splits)
          (blast intro: outgoing_unique_ma_set_state outgoing_unique_free_automaton)+
    qed
  qed
qed

lemma outgoing_unique_exec:
  "outgoing_unique s \<Longrightarrow> exec c s = Some s' \<Longrightarrow> outgoing_unique s'"
  by (cases c)
    (auto dest: outgoing_unique_ma_create_full outgoing_unique_ma_create_simple outgoing_unique_ma_delete
       outgoing_unique_ma_connect outgoing_unique_ma_disconnect outgoing_unique_ma_set_input
       outgoing_unique_ma_set_state outgoing_unique_ma_step
     simp: ma_get_output_def split: option.splits bind_splits)

section \<open>The example systems, evaluated\<close>

lemma ring_eq: "ring = Some (Some 0, Some 1, ring_sys)"
  by (simp add: ring_def sys_init_def model_defs copy_input_def ring_sys_def ring_A_def ring_B_def)

lemma ring_step:
  "map_option (\<lambda>(r, s'). (r, outputs s' 0, outputs s' 1)) (ma_step ring_sys (Some [Some 0, Some 1]) 2)
    = Some (0, Some [0], Some [1])"
  by (simp add: ring_sys_def ring_A_def ring_B_def model_defs copy_input_def outputs_def)

lemma replicate_2: "replicate 2 x = [x, x]"
  by (simp add: numeral_2_eq_2)

lemma wired_calls_eval: "for_each wired_calls exec (sys_init []) = Some wired_sys"
  by (simp add: wired_calls_def sys_init_def model_defs wired_sys_def wired_A_def wired_B_def replicate_2)

lemma replicate_8: "replicate 8 x = [x, x, x, x, x, x, x, x]"
  by (simp add: eval_nat_numeral)

lemma counter_eval: "ma_create_simple (sys_init []) 1 8 (Some increment) = Some (Some 0, counter_sys)"
  by (simp add: sys_init_def model_defs counter_sys_def counter_A_def replicate_8)

lemma counter_step:
  "map_option (\<lambda>(r, s'). (r, map_option a_state (heap s' 0), map_option a_output (heap s' 0)))
      (ma_step counter_sys (Some [Some 0, Some 0, Some 0]) 3)
    = Some (0, Some [3], Some [3])"
  by (simp add: counter_sys_def counter_A_def model_defs increment_def)

section \<open>The two phases of a step do not interleave\<close>

text \<open>
  C1.  First part: in the ring (\<open>A\<close> in state 1, \<open>B\<close> in state 0, outputs \<open>[1]\<close> and
  \<open>[0]\<close> before the step), \<open>ma_step\<close> on \<open>[A, B]\<close> returns 0 and leaves the output of
  \<open>A\<close> equal to \<open>[0]\<close>, the output of \<open>B\<close> before the step, and the output of \<open>B\<close>
  equal to \<open>[1]\<close>, the output of \<open>A\<close> before the step.  Second part, for every system
  and every array: after a step that returned 0, every connected input bit \<open>i\<close> of
  every automaton of the array holds the value that the output bit it is connected to
  had before the call, so no input refresh has read an output written by the
  transition phase of the same call.
\<close>

theorem step_synchronous:
  "(case ring of
      None \<Rightarrow> None
    | Some (a, b, s) \<Rightarrow>
        map_option (\<lambda>(r, s'). (r, outputs s 0, outputs s 1, outputs s' 0, outputs s' 1))
          (ma_step s (Some [a, b]) 2))
     = Some (0, Some [1], Some [0], Some [0], Some [1])
   \<and> (\<forall>s arr num s' p A inp i q j B.
        unat num = length arr \<longrightarrow> ma_step s (Some arr) num = Some (0, s') \<longrightarrow>
        Some p \<in> set arr \<longrightarrow> heap s p = Some A \<longrightarrow> a_input A = Some inp \<longrightarrow>
        i < unat (input_signals_num A) \<longrightarrow>
        incoming_connections A ! i = Some (Incoming (Some q) j) \<longrightarrow> heap s q = Some B \<longrightarrow>
        (\<exists>A' inp'. heap s' p = Some A' \<and> a_input A' = Some inp'
           \<and> test_bit inp' i = test_bit (a_output B) (unat j)))"
proof (intro conjI allI impI)
  show "(case ring of
      None \<Rightarrow> None
    | Some (a, b, s) \<Rightarrow>
        map_option (\<lambda>(r, s'). (r, outputs s 0, outputs s 1, outputs s' 0, outputs s' 1))
          (ma_step s (Some [a, b]) 2))
     = Some (0, Some [1], Some [0], Some [0], Some [1])"
    by (simp add: ring_eq)
      (simp add: ring_sys_def ring_A_def ring_B_def model_defs copy_input_def outputs_def)
next
  fix s arr num s' p A inp i q j B
  assume "unat num = length arr" "ma_step s (Some arr) num = Some (0, s')"
    "Some p \<in> set arr" "heap s p = Some A" "a_input A = Some inp"
    "i < unat (input_signals_num A)"
    "incoming_connections A ! i = Some (Incoming (Some q) j)" "heap s q = Some B"
  then show "\<exists>A' inp'. heap s' p = Some A' \<and> a_input A' = Some inp'
           \<and> test_bit inp' i = test_bit (a_output B) (unat j)"
    by (rule step_reads_outputs_before_step)
qed

text \<open>The second part at the ring: input 0 of \<open>A\<close> holds the old output of \<open>B\<close>.\<close>

theorem step_synchronous_witness:
  "unat (2 :: size_t) = length [Some (0::nat), Some 1]
   \<and> map_option fst (ma_step ring_sys (Some [Some 0, Some 1]) 2) = Some 0
   \<and> Some 0 \<in> set [Some (0::nat), Some 1] \<and> heap ring_sys 0 = Some ring_A
   \<and> a_input ring_A = Some [0] \<and> 0 < unat (input_signals_num ring_A)
   \<and> incoming_connections ring_A ! 0 = Some (Incoming (Some 1) 0) \<and> heap ring_sys 1 = Some ring_B
   \<and> (case ma_step ring_sys (Some [Some 0, Some 1]) 2 of
         None \<Rightarrow> False
       | Some (r, s') \<Rightarrow>
           (\<exists>A' inp'. heap s' 0 = Some A' \<and> a_input A' = Some inp'
              \<and> test_bit inp' 0 = test_bit (a_output ring_B) (unat (0 :: size_t)))
           \<and> test_bit (a_output ring_B) 0 = False \<and> outputs s' 1 = Some [1])"
proof -
  obtain s' where s': "ma_step ring_sys (Some [Some 0, Some 1]) 2 = Some (0, s')"
    and o: "outputs s' 1 = Some [1]"
    using ring_step by (cases "ma_step ring_sys (Some [Some 0, Some 1]) 2") auto
  have hyps: "unat (2 :: size_t) = length [Some (0::nat), Some 1]" "Some 0 \<in> set [Some (0::nat), Some 1]"
     "heap ring_sys 0 = Some ring_A" "a_input ring_A = Some [0]" "0 < unat (input_signals_num ring_A)"
     "incoming_connections ring_A ! 0 = Some (Incoming (Some 1) 0)" "heap ring_sys 1 = Some ring_B"
    by (simp_all add: ring_sys_def ring_A_def)
  from step_synchronous[THEN conjunct2, rule_format, OF hyps(1) s' hyps(2-7)]
  show ?thesis using hyps s' o by (simp add: ring_B_def test_bit_def)
qed

section \<open>Allocation failure inside \<open>ma_connect\<close>\<close>

text \<open>
  A system in which an outgoing list holds \<open>(a, 0)\<close> while the incoming slot 0 of \<open>a\<close>
  is empty does not have symmetric links.
\<close>

lemma unmirrored_entry_breaks_symmetry:
  assumes "heap s a = Some A" "heap s b = Some B"
    and "incoming_connections A = [None]"
    and "outgoing_connections B = [[Outgoing (Some a) 0]]"
  shows "\<not> links_symmetric s"
proof
  assume "links_symmetric s"
  then have "(incoming_connections A ! unat (0 :: size_t) = Some (Incoming (Some b) 0))
            = (Outgoing (Some a) 0 \<in> set (outgoing_connections B ! unat (0 :: size_t)))"
    unfolding links_symmetric_def using assms
    by (metis length_Cons less_Suc0 list.size(3) unsigned_0)
  then show False using assms by simp
qed

text \<open>
  C2 (link symmetry after every connect, also when a link-node allocation fails).
  \<open>A\<close> is at address 0 and \<open>B\<close> at address 1, both unconnected.  In
  \<open>ma_connect(A, 0, B, 0, 1)\<close> the allocation of the incoming node fails and the
  allocation of the outgoing node succeeds: \<open>create_incoming_connection\<close> returns
  without a node, \<open>ma_connect\<close> does not notice and still calls
  \<open>create_outgoing_connection\<close>.  Afterwards the outgoing list of output 0 of \<open>B\<close>
  holds \<open>(A, 0)\<close> while the incoming slot 0 of \<open>A\<close> is empty: the mirrored entry has
  no link, so the symmetry is broken (\<open>links_symmetric\<close> fails in such a system, by
  the lemma above).
\<close>

theorem connect_oom_leaves_unmirrored_entry:
  "(case pair_then_oom of
      None \<Rightarrow> None
    | Some (a, b, s) \<Rightarrow>
        map_option
          (\<lambda>(r, s'). (a, b, map_option incoming_connections (heap s' 0),
                       map_option outgoing_connections (heap s' 1)))
          (ma_connect s a 0 b 0 1))
   = Some (Some 0, Some 1, Some [None], Some [[Outgoing (Some 0) 0]])"
  by (simp add: pair_then_oom_def sys_init_def model_defs)

text \<open>
  C4 (a connect call in which a link-node allocation fails returns -1 with \<open>ENOMEM\<close>).
  In the same call as above \<open>errno\<close> is \<open>ENOMEM\<close>, set by the helper, but
  \<open>ma_connect\<close> returns 0: it has no test of its helpers' outcome.
\<close>

theorem connect_oom_returns_zero:
  "(case pair_then_oom of
      None \<Rightarrow> None
    | Some (a, b, s) \<Rightarrow> map_option (\<lambda>(r, s'). (r, errno s')) (ma_connect s a 0 b 0 1))
   = Some (0, ENOMEM)"
  by (simp add: pair_then_oom_def sys_init_def model_defs)

section \<open>Tail bits after \<open>ma_set_state\<close>\<close>

text \<open>
  C3 (the bits above the signal count are zero after every mutating operation).
  An automaton with 5 state bits and 5 output bits is given the state \<open>0xFF\<close>.
  \<open>ma_set_state\<close> copies the block as it is and masks neither the state nor what the
  output callback wrote, unlike \<open>calculate_new_state\<close>.  With an output callback that
  copies the state (first component, through \<open>ma_create_full\<close>) bits 5 to 7 of the
  state block and of the output block are set; with the masking \<open>identity_function\<close>
  (second component, \<open>ma_set_state\<close> on a simple automaton) bits 5 to 7 of the state
  block are set.
\<close>

theorem set_state_keeps_tail_bits:
  "(map_option (\<lambda>(p, s). map_option (\<lambda>A. (a_state A, a_output A, tails_clear A)) (heap s 0))
      (ma_create_full (sys_init []) 1 5 5 (Some increment) (Some copy_state) (Some [0xFF])),
    (case ma_create_simple (sys_init []) 1 5 (Some increment) of
       None \<Rightarrow> None
     | Some (a, s) \<Rightarrow>
         map_option (\<lambda>(r, s'). map_option (\<lambda>A. (a_state A, a_output A, tails_clear A)) (heap s' 0))
           (ma_set_state s a (Some [0xFF]))))
   = (Some (Some ([0xFF], [0xFF], False)), Some (Some ([0xFF], [0x1F], False)))"
  by (simp add: sys_init_def model_defs copy_state_def tails_clear_def tail_clear_def)

section \<open>Range checks that wrap\<close>

text \<open>
  C6 (a range with \<open>inputStart + count\<close> above the input count is rejected with -1 and
  \<open>EINVAL\<close>, and nothing changes).  In the ring, \<open>A\<close> has one input bit, connected to
  output 0 of \<open>B\<close>.  \<open>ma_disconnect(A, 2^64 - 1, 2)\<close> names a range that ends far above
  the input count, but \<open>in + num\<close> wraps to 1 and passes the check (the 64-bit word
  \<open>- 1\<close> is \<open>2^64 - 1\<close>).  The call returns 0
  and removes the link of input 0: the slot of \<open>A\<close> is empty and the outgoing list of
  \<open>B\<close> has lost its entry.
\<close>

theorem disconnect_wrapped_range_accepted:
  "(case ring of
      None \<Rightarrow> None
    | Some (a, b, s) \<Rightarrow>
        map_option
          (\<lambda>(r, s'). (r, map_option incoming_connections (heap s 0),
                       map_option incoming_connections (heap s' 0),
                       map_option outgoing_connections (heap s 1),
                       map_option outgoing_connections (heap s' 1)))
          (ma_disconnect s a (- 1) 2))
   = Some (0, Some [Some (Incoming (Some 1) 0)], Some [None],
           Some [[Outgoing (Some 0) 0]], Some [[]])"
  by (simp add: ring_def sys_init_def model_defs copy_input_def)

text \<open>
  C10.  \<open>ma_connect\<close> and \<open>ma_disconnect\<close> compare \<open>in + num\<close>, computed in \<open>size_t\<close>,
  with the input count.  Whenever the mathematical sum \<open>in + num\<close> reaches \<open>2^64\<close> (so
  it is above every input count) and the wrapped sum is at most the input count, the
  check passes: \<open>ma_disconnect\<close> does not return -1, and neither does \<open>ma_connect\<close>
  when its output range passes its own check.
\<close>

theorem range_check_wraps:
  assumes A: "heap s p = Some A"
    and num: "num \<noteq> 0"
    and wrap: "2 ^ 64 \<le> unat in0 + unat num"
    and chk: "in0 + num \<le> input_signals_num A"
  shows "unat (input_signals_num A) < unat in0 + unat num
     \<and> (\<forall>s'. ma_disconnect s (Some p) in0 num \<noteq> Some (- 1, s'))
     \<and> (\<forall>q B out0 s'. heap s q = Some B \<longrightarrow> out0 + num \<le> output_signals_num B \<longrightarrow>
            ma_connect s (Some p) in0 (Some q) out0 num \<noteq> Some (- 1, s'))"
proof (intro conjI allI impI)
  have "unat (input_signals_num A) < 2 ^ 64"
    using unsigned_less[of "input_signals_num A", where ?'a = nat] by simp
  then show "unat (input_signals_num A) < unat in0 + unat num"
    using wrap by simp
next
  fix s'
  show "ma_disconnect s (Some p) in0 num \<noteq> Some (- 1, s')"
    using A num chk by (auto simp: ma_disconnect_def split: bind_splits)
next
  fix q B out0 s'
  assume "heap s q = Some B" "out0 + num \<le> output_signals_num B"
  then show "ma_connect s (Some p) in0 (Some q) out0 num \<noteq> Some (- 1, s')"
    using A num chk by (auto simp: ma_connect_def split: bind_splits)
qed

text \<open>
  The start \<open>2^64 - 1\<close> with two bits on the automaton \<open>B\<close> of \<open>wired_sys\<close>, which has
  one input bit: \<open>ma_disconnect\<close> returns 0, and \<open>ma_connect\<close> goes past the check and
  reads \<open>incoming_connections\<close> outside its bounds.
\<close>

theorem range_check_wraps_witness:
  "heap wired_sys 1 = Some wired_B \<and> (2 :: size_t) \<noteq> 0
   \<and> (2 :: nat) ^ 64 \<le> unat (- 1 :: size_t) + unat (2 :: size_t)
   \<and> (- 1 :: size_t) + 2 \<le> input_signals_num wired_B
   \<and> heap wired_sys 0 = Some wired_A \<and> (0 :: size_t) + 2 \<le> output_signals_num wired_A
   \<and> unat (input_signals_num wired_B) < unat (- 1 :: size_t) + unat (2 :: size_t)
   \<and> map_option fst (ma_disconnect wired_sys (Some 1) (- 1) 2) = Some 0
   \<and> (\<forall>s'. ma_disconnect wired_sys (Some 1) (- 1) 2 \<noteq> Some (- 1, s'))
   \<and> ma_connect wired_sys (Some 1) (- 1) (Some 0) 0 2 = None
   \<and> (\<forall>s'. ma_connect wired_sys (Some 1) (- 1) (Some 0) 0 2 \<noteq> Some (- 1, s'))"
proof -
  have hyps: "heap wired_sys 1 = Some wired_B" "(2 :: size_t) \<noteq> 0"
    "(2 :: nat) ^ 64 \<le> unat (- 1 :: size_t) + unat (2 :: size_t)"
    "(- 1 :: size_t) + 2 \<le> input_signals_num wired_B"
    by (simp_all add: wired_sys_def wired_B_def unsigned_minus_1_eq_mask mask_eq_exp_minus_1)
  have hyps2: "heap wired_sys 0 = Some wired_A" "(0 :: size_t) + 2 \<le> output_signals_num wired_A"
    by (simp_all add: wired_sys_def wired_A_def)
  have d: "map_option fst (ma_disconnect wired_sys (Some 1) (- 1) 2) = Some 0"
    by (simp add: wired_sys_def wired_A_def wired_B_def model_defs)
  have m1: "unat (- 1 :: size_t) = 18446744073709551615"
    by (simp add: unsigned_minus_1_eq_mask mask_eq_exp_minus_1)
  have c: "ma_connect wired_sys (Some 1) (- 1) (Some 0) 0 2 = None"
    by (simp add: wired_sys_def wired_A_def wired_B_def model_defs m1)
  have n1: "unat (input_signals_num wired_B) = 1"
    by (simp add: wired_B_def)
  from range_check_wraps[OF hyps] hyps hyps2 d c show ?thesis
    by (simp add: m1 n1)
qed

section \<open>The frame of \<open>ma_set_input\<close>\<close>

text \<open>
  C5.  For an automaton with at least one input bit (its input buffer and incoming array
  sized for its input count, \<open>bs\<close> long enough), \<open>ma_set_input\<close> returns 0 and changes
  nothing in the system but the input buffer of that automaton.  In the new buffer
  signal \<open>i\<close> is signal \<open>i\<close> of \<open>bs\<close> exactly for the input bits \<open>i\<close> below the input
  count whose incoming slot is empty; every connected bit, and every bit above the
  input count, keeps its value.
\<close>

theorem set_input_frame:
  assumes A: "heap s p = Some A"
    and n0: "input_signals_num A \<noteq> 0"
    and inp: "a_input A = Some inp"
    and incs: "length (incoming_connections A) = unat (input_signals_num A)"
    and len: "unat (input_signals_num A) \<le> 64 * length inp"
    and lenb: "unat (input_signals_num A) \<le> 64 * length bs"
  shows "\<exists>inp'. ma_set_input s (Some p) (Some bs)
             = Some (0, s\<lparr>heap := (heap s)(p \<mapsto> A\<lparr>a_input := Some inp'\<rparr>)\<rparr>)
          \<and> length inp' = length inp
          \<and> (\<forall>i. i div 64 < length inp \<longrightarrow>
                test_bit inp' i =
                  (if i < unat (input_signals_num A) \<and> incoming_connections A ! i = None
                   then test_bit bs i else test_bit inp i))"
proof -
  let ?n = "unat (input_signals_num A)"
  let ?st = "\<lambda>x. s\<lparr>heap := (heap s)(p \<mapsto> A\<lparr>a_input := Some x\<rparr>)\<rparr>"
  let ?I = "\<lambda>k t. \<exists>inp'. t = ?st inp' \<and> length inp' = length inp
          \<and> (\<forall>i. i div 64 < length inp \<longrightarrow>
                test_bit inp' i =
                  (if i < k \<and> incoming_connections A ! i = None
                   then test_bit bs i else test_bit inp i))"
  let ?body = "\<lambda>i s. do {
                 A \<leftarrow> heap s p;
                 slot \<leftarrow> nth_opt (incoming_connections A) (unat i);
                 if slot = None then do {
                   (bit_value, s1) \<leftarrow> get_bit s (Some bs) i;
                   (arr, s2) \<leftarrow> set_bit_c s1 bit_value (a_input A) (i div 64) (i mod 64);
                   A' \<leftarrow> heap s2 p;
                   Some (store s2 p (A'\<lparr>a_input := arr\<rparr>))
                 } else Some s
               }"
  have I0: "?I 0 s"
    using A inp by (intro exI[of _ inp]) (simp add: fun_upd_idem)
  have step: "\<exists>t'. ?body (word_of_nat k) t = Some t' \<and> ?I (Suc k) t'" if k: "k < ?n" and I: "?I k t" for k t
  proof -
    from I obtain x where t: "t = ?st x" and lx: "length x = length inp"
      and bx: "\<forall>i. i div 64 < length inp \<longrightarrow>
                test_bit x i = (if i < k \<and> incoming_connections A ! i = None
                   then test_bit bs i else test_bit inp i)"
      by blast
    have uk: "unat (word_of_nat k :: 64 word) = k"
      using k by (rule unat_index)
    have kin: "k div 64 < length inp" "k div 64 < length bs" "k < length (incoming_connections A)"
      using k len lenb incs by auto
    show ?thesis
    proof (cases "incoming_connections A ! k = None")
      case False
      have "?body (word_of_nat k) t = Some t"
        using False kin by (auto simp: t uk nth_opt_def)
      moreover have "?I (Suc k) t"
        using False lx bx t by (intro exI[of _ x]) (auto simp: less_Suc_eq)
      ultimately show ?thesis by blast
    next
      case True
      let ?x' = "write_bit x k (test_bit bs k)"
      have "?body (word_of_nat k) t = Some (?st ?x')"
        using True kin lx
        by (simp add: t uk nth_opt_def get_bit_Some set_bit_c_Some store_def)
      moreover have "?I (Suc k) (?st ?x')"
        using True lx bx kin
        by (intro exI[of _ ?x']) (auto simp: less_Suc_eq test_bit_write_bit)
      ultimately show ?thesis by blast
    qed
  qed
  from for_each_upt_total[of ?I s ?n "\<lambda>k. ?body (word_of_nat k)", OF I0 step]
  obtain t' where "for_each [0..<?n] (\<lambda>k. ?body (word_of_nat k)) s = Some t'" "?I ?n t'"
    by blast
  then show ?thesis
    using A n0 by (auto simp: ma_set_input_def for_each_size_t_range)
qed

text \<open>
  In \<open>wired_sys\<close> input 0 of \<open>A\<close> is connected and input 1 is not: \<open>ma_set_input\<close>
  with the bits \<open>[3]\<close> on the buffer \<open>[0]\<close> stores bit 1 only.
\<close>

theorem set_input_frame_witness:
  "heap wired_sys 0 = Some wired_A \<and> input_signals_num wired_A \<noteq> 0 \<and> a_input wired_A = Some [0]
   \<and> length (incoming_connections wired_A) = unat (input_signals_num wired_A)
   \<and> unat (input_signals_num wired_A) \<le> 64 * length [0 :: uint64_t]
   \<and> unat (input_signals_num wired_A) \<le> 64 * length [3 :: uint64_t]
   \<and> ma_set_input wired_sys (Some 0) (Some [3])
        = Some (0, wired_sys\<lparr>heap := (heap wired_sys)(0 \<mapsto> wired_A\<lparr>a_input := Some [2]\<rparr>)\<rparr>)
   \<and> (\<exists>inp'. ma_set_input wired_sys (Some 0) (Some [3])
             = Some (0, wired_sys\<lparr>heap := (heap wired_sys)(0 \<mapsto> wired_A\<lparr>a_input := Some inp'\<rparr>)\<rparr>)
          \<and> length inp' = length [0 :: uint64_t]
          \<and> (\<forall>i. i div 64 < length [0 :: uint64_t] \<longrightarrow>
                test_bit inp' i =
                  (if i < unat (input_signals_num wired_A) \<and> incoming_connections wired_A ! i = None
                   then test_bit [3] i else test_bit [0] i)))"
proof -
  have hyps: "heap wired_sys 0 = Some wired_A" "input_signals_num wired_A \<noteq> 0" "a_input wired_A = Some [0]"
    "length (incoming_connections wired_A) = unat (input_signals_num wired_A)"
    "unat (input_signals_num wired_A) \<le> 64 * length [0 :: uint64_t]"
    "unat (input_signals_num wired_A) \<le> 64 * length [3 :: uint64_t]"
    by (simp_all add: wired_sys_def wired_A_def)
  have ev: "ma_set_input wired_sys (Some 0) (Some [3])
        = Some (0, wired_sys\<lparr>heap := (heap wired_sys)(0 \<mapsto> wired_A\<lparr>a_input := Some [2]\<rparr>)\<rparr>)"
    by (simp add: wired_sys_def wired_A_def wired_B_def model_defs)
  from set_input_frame[OF hyps] hyps ev show ?thesis by blast
qed

section \<open>The order of the automata in a step\<close>

text \<open>
  C7 (a step on a permutation of the list leaves the same buffers), when an allocation
  fails.  The two automata of \<open>counters_then_oom\<close> are distinct, \<open>A\<close> in state 5 and
  \<open>B\<close> in state 7, and the next allocation fails: it is the scratch buffer of the
  first automaton of the array.  \<open>calculate_new_state\<close> returns without touching that
  automaton (\<open>calculate_new_state_alloc_failure\<close>) and \<open>ma_step\<close> goes on with the next
  one.  The triples are the input, state and output buffers of \<open>A\<close> and of \<open>B\<close> after
  the step: on \<open>[A, B]\<close> the automaton \<open>A\<close> stays at 5 and \<open>B\<close> moves to 8, on
  \<open>[B, A]\<close> the automaton \<open>A\<close> moves to 6 and \<open>B\<close> stays at 7.
\<close>

theorem step_order_visible_when_allocation_fails:
  "(case counters_then_oom of
      None \<Rightarrow> None
    | Some (a, b, s) \<Rightarrow>
        Some (a \<noteq> b,
              map_option (\<lambda>(r, s'). (map_option (\<lambda>A. (a_input A, a_state A, a_output A)) (heap s' 0),
                                     map_option (\<lambda>A. (a_input A, a_state A, a_output A)) (heap s' 1)))
                (ma_step s (Some [a, b]) 2),
              map_option (\<lambda>(r, s'). (map_option (\<lambda>A. (a_input A, a_state A, a_output A)) (heap s' 0),
                                     map_option (\<lambda>A. (a_input A, a_state A, a_output A)) (heap s' 1)))
                (ma_step s (Some [b, a]) 2)))
     = Some (True,
             Some (Some (Some [0], [5], [5]), Some (Some [0], [8], [8])),
             Some (Some (Some [0], [6], [6]), Some (Some [0], [7], [7])))"
  by (simp add: counters_then_oom_def sys_init_def model_defs increment_def replicate_8)

text \<open>
  C7, provided no allocation of a scratch buffer fails during the call.  \<open>ma_step\<close> on
  a list of \<open>num\<close> automata and on any permutation of that list returns the same value
  and leaves the same system, so the same input, state and output buffers of every
  automaton.  The callbacks are functions of their arguments; the automata need not
  even be distinct.
\<close>

theorem step_order_independent:
  assumes perm: "mset ys = mset xs"
    and len: "unat num = length xs"
    and na: "no_alloc_failure s"
  shows "ma_step s (Some ys) num = ma_step s (Some xs) num"
proof -
  have sets: "set ys = set xs" using perm by (metis set_mset_mset)
  have leny: "unat num = length ys" using perm len by (metis size_mset)
  show ?thesis
  proof (cases "num = 0 \<or> None \<in> set xs")
    case True
    then show ?thesis using sets by (simp add: ma_step_eq[OF len] ma_step_eq[OF leny])
  next
    case False
    then have nn: "None \<notin> set xs" by simp
    have p1: "for_each ys (\<lambda>a s. get_input s a) t = for_each xs (\<lambda>a s. get_input s a) t" for t
    proof (rule for_each_permute[where I = "\<lambda>_. True", OF _ _ perm])
      fix x y t assume "x \<in> set xs" "y \<in> set xs" "x \<noteq> y"
      then obtain p q where "x = Some p" "y = Some q" "p \<noteq> q"
        using nn by (metis not_None_eq)
      then show "get_input t y \<bind> (\<lambda>s. get_input s x) = get_input t x \<bind> (\<lambda>s. get_input s y)"
        using get_input_commute[of q p t] by simp
    qed simp_all
    have p2: "for_each ys (\<lambda>a s. calculate_new_state s a) t = for_each xs (\<lambda>a s. calculate_new_state s a) t"
      if "no_alloc_failure t" for t
    proof (rule for_each_permute[where I = no_alloc_failure, OF _ _ perm that])
      fix y t t' assume "no_alloc_failure t" "calculate_new_state t y = Some t'"
      then show "no_alloc_failure t'" by (rule no_alloc_failure_calculate_new_state)
    next
      fix x y t assume "no_alloc_failure t" "x \<in> set xs" "y \<in> set xs" "x \<noteq> y"
      then obtain p q where "x = Some p" "y = Some q" "p \<noteq> q" "no_alloc_failure t"
        using nn by (metis not_None_eq)
      then show "calculate_new_state t y \<bind> (\<lambda>s. calculate_new_state s x)
          = calculate_new_state t x \<bind> (\<lambda>s. calculate_new_state s y)"
        using calculate_new_state_commute[of q p t] by simp
    qed
    have na1: "no_alloc_failure s1" if "for_each xs (\<lambda>a s. get_input s a) s = Some s1" for s1
      using that na by (rule for_each_invariant) (rule no_alloc_failure_get_input)
    show ?thesis
      using False sets
      by (auto simp: ma_step_eq[OF len] ma_step_eq[OF leny] p1 p2 na1 split: bind_splits)
  qed
qed

text \<open>The ring stepped as \<open>[B, A]\<close> and as \<open>[A, B]\<close>.\<close>

theorem step_order_independent_witness:
  "mset [Some (1::nat), Some 0] = mset [Some 0, Some 1]
   \<and> unat (2 :: size_t) = length [Some (0::nat), Some 1]
   \<and> no_alloc_failure ring_sys
   \<and> ma_step ring_sys (Some [Some 1, Some 0]) 2 = ma_step ring_sys (Some [Some 0, Some 1]) 2
   \<and> map_option (\<lambda>(r, s'). (r, outputs s' 0, outputs s' 1)) (ma_step ring_sys (Some [Some 1, Some 0]) 2)
        = Some (0, Some [0], Some [1])"
proof -
  have hyps: "mset [Some (1::nat), Some 0] = mset [Some 0, Some 1]"
    "unat (2 :: size_t) = length [Some (0::nat), Some 1]" "no_alloc_failure ring_sys"
    by (simp_all add: ring_sys_def no_alloc_failure_def)
  from step_order_independent[OF hyps] hyps ring_step show ?thesis by simp
qed

section \<open>Automata listed more than once\<close>

text \<open>
  C9 (an automaton listed \<open>k\<close> times goes through \<open>k\<close> transitions), when an allocation
  fails.  The counter of \<open>counter_then_oom\<close> is in state 0 and is listed three times;
  the first scratch buffer is allocated and the allocation of the second one fails,
  so the second round of the transition loop leaves the automaton as it is
  (\<open>calculate_new_state_alloc_failure\<close>).  After the call the state and the output are
  \<open>[2]\<close>: two transitions for three entries.  The call returns 0 with \<open>errno\<close> at
  \<open>ENOMEM\<close>, where the comment of \<open>ma_step\<close> promises -1 after a failed allocation:
  \<open>ma_step\<close> does not test the outcome of \<open>calculate_new_state\<close>.  The number of
  transitions is what the claim is about, and it is two whatever the call returns.
\<close>

theorem step_skips_transition_when_allocation_fails:
  "(case counter_then_oom of
      None \<Rightarrow> None
    | Some (a, s) \<Rightarrow>
        map_option
          (\<lambda>(r, s'). (r, errno s', map_option a_state (heap s' 0), map_option a_output (heap s' 0)))
          (ma_step s (Some [a, a, a]) 3))
     = Some (0, ENOMEM, Some [2], Some [2])"
  by (simp add: counter_then_oom_def sys_init_def model_defs increment_def replicate_8)

text \<open>
  C9, provided no allocation of a scratch buffer fails during the call.  \<open>ma_step\<close>
  does not look for duplicates in its array.  When the array has \<open>num\<close> entries, none
  of them \<open>NULL\<close>, a call that returns has returned 0, and an automaton listed \<open>k\<close>
  times (\<open>k\<close> is \<open>count_list\<close>) has had its input refreshed \<open>k\<close> times against the
  outputs before the call and has then gone through \<open>k\<close> successive transitions: its
  final contents are the \<open>k\<close>-fold application of \<open>transitioned\<close> (transition, masking,
  output, masking) to the \<open>k\<close>-fold application of \<open>refreshed\<close> to its contents before
  the call.
\<close>

theorem step_repeats_duplicates:
  assumes len: "unat num = length arr"
    and na: "no_alloc_failure s"
    and A: "heap s p = Some A"
    and step: "ma_step s (Some arr) num = Some (r, s')"
    and ok: "num \<noteq> 0" "None \<notin> set arr"
  shows "r = 0 \<and> heap s' p =
           (transitioned ^^ count_list arr (Some p))
             ((refreshed s ^^ count_list arr (Some p)) (Some A))"
proof -
  from step ok obtain s1 where s1: "for_each arr (\<lambda>a s. get_input s a) s = Some s1"
    and s': "for_each arr (\<lambda>a s. calculate_new_state s a) s1 = Some s'" and r: "r = 0"
    by (auto simp: ma_step_eq[OF len] split: bind_splits)
  from phase2_count[OF s1, of p] A
  have x: "heap s1 p = (refreshed s ^^ count_list arr (Some p)) (Some A)" by simp
  have "no_alloc_failure s1"
    using s1 na by (rule for_each_invariant) (rule no_alloc_failure_get_input)
  from phase3_count_transitioned[OF s' ok(2) this, of p] x r show ?thesis by simp
qed

text \<open>The counter listed three times: the call returns 0 and the state is \<open>[3]\<close>.\<close>

theorem step_repeats_duplicates_witness:
  "unat (3 :: size_t) = length [Some (0::nat), Some 0, Some 0]
   \<and> no_alloc_failure counter_sys \<and> heap counter_sys 0 = Some counter_A
   \<and> (3 :: size_t) \<noteq> 0 \<and> None \<notin> set [Some (0::nat), Some 0, Some 0]
   \<and> count_list [Some (0::nat), Some 0, Some 0] (Some 0) = 3
   \<and> (case ma_step counter_sys (Some [Some 0, Some 0, Some 0]) 3 of
         None \<Rightarrow> False
       | Some (r, s') \<Rightarrow>
           r = 0
           \<and> heap s' 0 = (transitioned ^^ 3) ((refreshed counter_sys ^^ 3) (Some counter_A))
           \<and> map_option a_state (heap s' 0) = Some [3])"
proof -
  obtain r s' where s': "ma_step counter_sys (Some [Some 0, Some 0, Some 0]) 3 = Some (r, s')"
    and st: "map_option a_state (heap s' 0) = Some [3]"
    using counter_step by (cases "ma_step counter_sys (Some [Some 0, Some 0, Some 0]) 3") auto
  have hyps: "unat (3 :: size_t) = length [Some (0::nat), Some 0, Some 0]"
    "no_alloc_failure counter_sys" "heap counter_sys 0 = Some counter_A"
    "(3 :: size_t) \<noteq> 0" "None \<notin> set [Some (0::nat), Some 0, Some 0]"
    by (simp_all add: counter_sys_def no_alloc_failure_def)
  have c: "count_list [Some (0::nat), Some 0, Some 0] (Some 0) = 3" by simp
  from step_repeats_duplicates[OF hyps(1,2,3) s' hyps(4,5), unfolded c]
  show ?thesis using hyps s' st c by simp
qed

section \<open>Outgoing lists never hold an entry twice\<close>

text \<open>
  C8.  Start from the empty system, with any outcomes of the allocations to come, and
  run any sequence of calls of the library with any arguments.  In every system
  reached, no outgoing list of a live automaton holds an entry twice: for every source
  automaton and output bit there is at most one entry per destination automaton and
  destination input bit.
\<close>

theorem outgoing_lists_unique:
  assumes "for_each calls exec (sys_init al) = Some s"
  shows "outgoing_unique s"
  using assms
proof (rule for_each_invariant)
  show "outgoing_unique (sys_init al)"
    by (simp add: outgoing_unique_def sys_init_def)
qed (rule outgoing_unique_exec)

text \<open>
  Connect, disconnect and connect again on the same pair of bits: the outgoing list of
  output 0 of \<open>B\<close> holds the entry once.
\<close>

theorem outgoing_lists_unique_witness:
  "for_each wired_calls exec (sys_init []) = Some wired_sys
   \<and> outgoing_unique wired_sys
   \<and> map_option outgoing_connections (heap wired_sys 1) = Some [[Outgoing (Some 0) 0]]"
  using outgoing_lists_unique[OF wired_calls_eval] wired_calls_eval
  by (simp add: wired_sys_def wired_B_def)

end
